theory Spec2Isabelle
  imports Main "HOL-Library.Word" "HOL-Library.Signed_Division"
begin

section \<open>The IR as seen by the revectorizer\<close>

text \<open>
  A \<open>Node*\<close> and a \<open>const Operator*\<close> are addresses; two pointers are equal iff
  the addresses are. \<open>int64_t\<close> and \<open>int32_t\<close> are words read as two's complement.
\<close>

type_synonym node = nat
type_synonym op_ptr = nat
type_synonym pack_ptr = nat
type_synonym int64 = "64 word"
type_synonym int32 = "32 word"

text \<open>
  The opcodes that \<open>revectorizer.cc\<close> names; every other opcode of the IR is
  \<open>kOtherOpcode k\<close>.
\<close>

datatype IrOpcode =
    kInt64Constant | kInt64Add | kChangeUint32ToUint64
  | kLoad | kLoadFromObject | kProtectedLoad | kLoadTransform
  | kStore | kProtectedStore
  | kPhi | kLoopExitValue | kExtractF128
  | kF32x4Add | kF32x4Mul
  | kOtherOpcode nat

datatype MachineRepresentation = kSimd128 | kOtherRepresentation nat

datatype LoadTransformation = kS128Load32Splat | kS128Load64Splat | kOtherTransformation nat

text \<open>
  An operator object: its opcode, its number of value inputs and its parameter, as read by
  the accessor the source applies to an operator of that opcode
  (\<open>OpParameter<int64_t>\<close> on \<open>Int64Constant\<close>, \<open>OpParameter<int32_t>\<close> on
  \<open>ExtractF128\<close>, \<open>LoadRepresentationOf\<close>, \<open>PhiRepresentationOf\<close> and
  \<open>LoopExitValueRepresentationOf\<close> for the representation,
  \<open>LoadTransformParametersOf\<close> for the transformation).
\<close>

record Operator =
  opcode_of :: IrOpcode
  ValueInputCount :: nat
  OpParameter_int64 :: int64
  OpParameter_int32 :: int32
  representation :: MachineRepresentation
  transformation :: LoadTransformation

text \<open>
  The graph, the scheduler and \<open>NodeProperties\<close> are declared outside
  \<open>revectorizer.cc\<close>; the pass only queries them, so they are the fields of one record:
  \<open>node_op n\<close> is \<open>n->op()\<close>, \<open>operator_at\<close> dereferences an operator pointer,
  \<open>InputAt n i\<close> is \<open>n->InputAt(i)\<close>, and the remaining fields are the queries of
  \<open>NodeProperties\<close>, of the linear scheduler and of the graph that the source calls.
\<close>

record Graph =
  node_op :: "node \<Rightarrow> op_ptr"
  operator_at :: "op_ptr \<Rightarrow> Operator"
  InputAt :: "node \<Rightarrow> nat \<Rightarrow> node"
  IsConstant :: "node \<Rightarrow> bool"
  IsPhi :: "node \<Rightarrow> bool"
  IsSimd128Operation :: "node \<Rightarrow> bool"
  FirstControlIndex :: "node \<Rightarrow> nat"
  SameBasicBlock :: "node \<Rightarrow> node \<Rightarrow> bool"
  GetEarlySchedulePosition :: "node \<Rightarrow> node"
  GetSimdStoreNodes :: "node list"

definition op_of :: "Graph \<Rightarrow> node \<Rightarrow> Operator" where
  "op_of G n = operator_at G (node_op G n)"

definition opcode :: "Graph \<Rightarrow> node \<Rightarrow> IrOpcode" where
  "opcode G n = opcode_of (op_of G n)"

text \<open>
  Modelled from the spec: \<open>NodeProperties::GetValueInput\<close> is not in
  \<open>revectorizer.cc\<close>; the value inputs of a node are its first inputs, in order.
\<close>

definition GetValueInput :: "Graph \<Rightarrow> node \<Rightarrow> nat \<Rightarrow> node" where
  "GetValueInput G n i = InputAt G n i"

text \<open>
  Modelled from the spec: \<open>kSimd128Size\<close> is declared outside \<open>revectorizer.cc\<close>; a
  128-bit vector has 16 bytes.
\<close>

definition kSimd128Size :: int64 where
  "kSimd128Size = 16"

section \<open>Memory address analysis\<close>

definition GetConstantValue :: "Graph \<Rightarrow> node \<Rightarrow> int64" where
  "GetConstantValue G n =
     (if opcode G n = kInt64Constant then OpParameter_int64 (op_of G n) else - 1)"

definition GetMemoryOffsetValue :: "Graph \<Rightarrow> node \<Rightarrow> int64" where
  "GetMemoryOffsetValue G n =
     (let offset = InputAt G n 0 in
      if opcode G offset = kLoadFromObject \<or> opcode G offset = kLoad then 0
      else if opcode G offset = kInt64Add then
        (if IsConstant G (InputAt G offset 0) then GetConstantValue G (InputAt G offset 0)
         else if IsConstant G (InputAt G offset 1) then GetConstantValue G (InputAt G offset 1)
         else - 1)
      else - 1)"

definition GetNodeAddress :: "Graph \<Rightarrow> node \<Rightarrow> node" where
  "GetNodeAddress G n =
     (let address = InputAt G n 1 in
      if opcode G address = kChangeUint32ToUint64 then InputAt G address 0 else address)"

text \<open>
  The loop of \<open>IsContinuousAccess\<close> over \<open>node_group[1..]\<close>, carrying
  \<open>previous_offset\<close>. The difference of two \<open>int64_t\<close> is taken modulo \<open>2^64\<close>.
\<close>

fun IsContinuousAccess_from :: "Graph \<Rightarrow> int64 \<Rightarrow> node list \<Rightarrow> bool" where
  "IsContinuousAccess_from G previous_offset [] = True"
| "IsContinuousAccess_from G previous_offset (n # ns) =
     (let current_offset = GetMemoryOffsetValue G n;
          diff = current_offset - previous_offset
      in if diff \<noteq> kSimd128Size then False
         else IsContinuousAccess_from G current_offset ns)"

text \<open>\<open>DCHECK_GT(node_group.size(), 0)\<close>: the function is called on non-empty groups only.\<close>

fun IsContinuousAccess :: "Graph \<Rightarrow> node list \<Rightarrow> bool" where
  "IsContinuousAccess G (n # ns) = IsContinuousAccess_from G (GetMemoryOffsetValue G n) ns"
| "IsContinuousAccess G [] = True"

definition AllConstant :: "Graph \<Rightarrow> node list \<Rightarrow> bool" where
  "AllConstant G node_group = list_all (IsConstant G) node_group"

definition AllSameAddress :: "Graph \<Rightarrow> node list \<Rightarrow> bool" where
  "AllSameAddress G nodes =
     list_all (\<lambda>n. GetNodeAddress G n = GetNodeAddress G (nodes ! 0)) (tl nodes)"

definition IsSplat :: "node list \<Rightarrow> bool" where
  "IsSplat node_group = list_all (\<lambda>n. n = node_group ! 0) (tl node_group)"

text \<open>\<open>AllSameOperator\<close> compares the operator pointers, not their contents.\<close>

definition AllSameOperator :: "Graph \<Rightarrow> node list \<Rightarrow> bool" where
  "AllSameOperator G node_group =
     list_all (\<lambda>n. node_op G n = node_op G (node_group ! 0)) (tl node_group)"

text \<open>\<open>MemoryOffsetComparer\<close>: a signed comparison of the two offsets.\<close>

definition MemoryOffsetComparer :: "Graph \<Rightarrow> node \<Rightarrow> node \<Rightarrow> bool" where
  "MemoryOffsetComparer G lhs rhs =
     (sint (GetMemoryOffsetValue G lhs) < sint (GetMemoryOffsetValue G rhs))"

section \<open>Pack nodes, the registry and the recursion stack\<close>

text \<open>
  Modelled from the spec: the class \<open>PackNode\<close> is declared outside
  \<open>revectorizer.cc\<close>. A pack holds the group of nodes it pairs, the child packs indexed
  by operand position (sparse: only positions that were recursed into are set) and the slot
  for the revectorized node, initially empty.
\<close>

record PackNode =
  nodes :: "node list"
  operands :: "nat \<rightharpoonup> pack_ptr"
  revectorized_node :: "node option"

text \<open>
  Modelled from the spec: \<open>PackNode::IsSame\<close> is true iff the pack's nodes match the
  given group element-wise.
\<close>

definition IsSame :: "PackNode \<Rightarrow> node list \<Rightarrow> bool" where
  "IsSame p node_group = (nodes p = node_group)"

text \<open>
  The members of \<open>SLPTree\<close> that \<open>revectorizer.cc\<close> reads and writes. The zone is an
  explicit store: \<open>pack_at\<close> maps the address of a pack to the pack, \<open>zone_next\<close> is the
  address the next \<open>zone_->New<PackNode>\<close> returns. The head of \<open>stack\<close> is its top.
\<close>

record SLPTree =
  on_stack :: "node set"
  stack :: "node list list"
  node_to_packnode :: "node \<rightharpoonup> pack_ptr"
  pack_at :: "pack_ptr \<Rightarrow> PackNode"
  zone_next :: pack_ptr
  root :: "pack_ptr option"

definition NewPackNode :: "node list \<Rightarrow> SLPTree \<Rightarrow> pack_ptr \<times> SLPTree" where
  "NewPackNode node_group s =
     (let pnode = zone_next s in
      (pnode,
       s\<lparr>pack_at := (pack_at s)(pnode :=
              \<lparr>nodes = node_group, operands = Map.empty, revectorized_node = None\<rparr>),
         zone_next := Suc pnode,
         node_to_packnode := fold (\<lambda>n m. m(n \<mapsto> pnode)) node_group (node_to_packnode s)\<rparr>))"

text \<open>Modelled from the spec: \<open>PackNode::SetOperand\<close> records a recursive child.\<close>

definition SetOperand :: "pack_ptr \<Rightarrow> nat \<Rightarrow> pack_ptr \<Rightarrow> SLPTree \<Rightarrow> SLPTree" where
  "SetOperand pnode i child s =
     s\<lparr>pack_at := (pack_at s)(pnode :=
          (pack_at s pnode)\<lparr>operands := (operands (pack_at s pnode))(i \<mapsto> child)\<rparr>)\<rparr>"

definition GetPackNode :: "SLPTree \<Rightarrow> node \<Rightarrow> pack_ptr option" where
  "GetPackNode s n = node_to_packnode s n"

definition PushStack :: "node list \<Rightarrow> SLPTree \<Rightarrow> SLPTree" where
  "PushStack node_group s =
     s\<lparr>on_stack := fold insert node_group (on_stack s), stack := node_group # stack s\<rparr>"

text \<open>
  \<open>PopStack\<close> erases the nodes of the top group from the on-stack set and pops the group.
  The source calls it only after a \<open>PushStack\<close>; on an empty stack, where \<open>top()\<close> is
  undefined in C++, the model leaves the state as it is.
\<close>

definition PopStack :: "SLPTree \<Rightarrow> SLPTree" where
  "PopStack s =
     (case stack s of
        [] \<Rightarrow> s
      | node_group # rest \<Rightarrow>
          s\<lparr>on_stack := fold (\<lambda>n S. S - {n}) node_group (on_stack s), stack := rest\<rparr>)"

definition OnStack :: "SLPTree \<Rightarrow> node \<Rightarrow> bool" where
  "OnStack s n = (n \<in> on_stack s)"

text \<open>The loop of \<open>AllOnStack\<close> returns true at the first node that is on the stack.\<close>

fun AllOnStack :: "SLPTree \<Rightarrow> node list \<Rightarrow> bool" where
  "AllOnStack s [] = False"
| "AllOnStack s (n # ns) = (if OnStack s n then True else AllOnStack s ns)"

text \<open>
  \<open>StackTopIsPhi\<close> reads \<open>stack_.top()\<close>; the source calls it only when a node is on
  the stack. On an empty stack the model answers False.
\<close>

definition StackTopIsPhi :: "Graph \<Rightarrow> SLPTree \<Rightarrow> bool" where
  "StackTopIsPhi G s =
     (case stack s of [] \<Rightarrow> False | node_group # rest \<Rightarrow> IsPhi G (node_group ! 0))"

definition ClearStack :: "SLPTree \<Rightarrow> SLPTree" where
  "ClearStack s = s\<lparr>stack := [], on_stack := {}\<rparr>"

definition DeleteTree :: "SLPTree \<Rightarrow> SLPTree" where
  "DeleteTree s = (ClearStack s)\<lparr>node_to_packnode := Map.empty\<rparr>"

definition CanBePacked :: "Graph \<Rightarrow> node list \<Rightarrow> bool" where
  "CanBePacked G node_group =
     (if \<not> SameBasicBlock G (node_group ! 0) (node_group ! 1) then False
      else if \<not> AllSameOperator G node_group then False
      else if AllConstant G node_group then False
      else
        (let op = opcode G (node_group ! 0) in
         IsSimd128Operation G (node_group ! 0) \<or> op = kStore \<or> op = kProtectedStore \<or>
         op = kLoad \<or> op = kProtectedLoad \<or> op = kPhi \<or> op = kLoopExitValue \<or>
         op = kExtractF128))"

section \<open>The dependency prober\<close>

text \<open>
  The inputs pushed before the loop, in the order they are pushed: for each load of the
  group, its inputs before the first control input that are not nodes of the group.
\<close>

definition initial_inputs :: "Graph \<Rightarrow> node list \<Rightarrow> node list" where
  "initial_inputs G node_group =
     concat (map (\<lambda>load. filter (\<lambda>input. input \<notin> set node_group)
                           (map (InputAt G load) [0..<FirstControlIndex G load]))
                 node_group)"

text \<open>
  The \<open>while\<close> loop of \<open>IsSideEffectFreeLoad\<close>. The head of \<open>to_visit\<close> is the top of
  the stack, so the inputs pushed in a round come reversed in front of the rest. The loop
  may run forever on a graph that is not finite: \<open>None\<close> is not returning.
\<close>

partial_function (option) IsSideEffectFreeLoad_loop ::
  "Graph \<Rightarrow> SLPTree \<Rightarrow> node list \<Rightarrow> node list \<Rightarrow> node set \<Rightarrow> bool option" where
  "IsSideEffectFreeLoad_loop G s node_group to_visit visited =
     (case to_visit of
        [] \<Rightarrow> Some True
      | input # rest \<Rightarrow>
          if input \<notin> visited then
            if OnStack s input then Some False
            else if SameBasicBlock G input (node_group ! 0) then
              IsSideEffectFreeLoad_loop G s node_group
                (rev (map (InputAt G input) [0..<FirstControlIndex G input]) @ rest)
                (insert input visited)
            else IsSideEffectFreeLoad_loop G s node_group rest (insert input visited)
          else IsSideEffectFreeLoad_loop G s node_group rest visited)"

definition IsSideEffectFreeLoad :: "Graph \<Rightarrow> SLPTree \<Rightarrow> node list \<Rightarrow> bool option" where
  "IsSideEffectFreeLoad G s node_group =
     IsSideEffectFreeLoad_loop G s node_group (rev (initial_inputs G node_group)) {}"

section \<open>The SLP tree builder\<close>

text \<open>
  The loop over the group that looks for a node already registered to a pack: the first
  registered node decides.
\<close>

fun first_registered :: "SLPTree \<Rightarrow> node list \<Rightarrow> pack_ptr option" where
  "first_registered s [] = None"
| "first_registered s (n # ns) =
     (case GetPackNode s n of Some p \<Rightarrow> Some p | None \<Rightarrow> first_registered s ns)"

text \<open>
  \<open>partial_sort_copy\<close> of the whole group with \<open>MemoryOffsetComparer\<close>: the group
  sorted by ascending signed offset. Nodes of equal offset may come in either order in C++;
  \<open>IsContinuousAccess\<close>, the only reader of the sorted group, reads the offsets only.
\<close>

definition sorted_node_group :: "Graph \<Rightarrow> node list \<Rightarrow> node list" where
  "sorted_node_group G node_group =
     sort_key (\<lambda>n. sint (GetMemoryOffsetValue G n)) node_group"

text \<open>
  \<open>BuildTreeRec\<close>, \<open>NewPackNodeAndRecurs\<close> and the \<open>for\<close> loop of the latter. The
  result is \<open>None\<close> when the dependency prober does not return; otherwise it is the pack
  returned (\<open>None\<close> for \<open>nullptr\<close>) and the state of the tree. \<open>RecursionMaxDepth\<close> is
  declared outside \<open>revectorizer.cc\<close> and is the parameter \<open>maxd\<close>, taken to fit in
  an \<open>unsigned\<close> as the depth does. The \<open>TRACE\<close> output is left out.
\<close>

function BuildTreeRec ::
    "Graph \<Rightarrow> 32 word \<Rightarrow> node list \<Rightarrow> 32 word \<Rightarrow> SLPTree \<Rightarrow> (pack_ptr option \<times> SLPTree) option"
  and NewPackNodeAndRecurs ::
    "Graph \<Rightarrow> 32 word \<Rightarrow> node list \<Rightarrow> nat \<Rightarrow> nat \<Rightarrow> 32 word \<Rightarrow> SLPTree
       \<Rightarrow> (pack_ptr option \<times> SLPTree) option"
  and NewPackNodeAndRecurs_loop ::
    "Graph \<Rightarrow> 32 word \<Rightarrow> node list \<Rightarrow> nat \<Rightarrow> nat \<Rightarrow> 32 word \<Rightarrow> pack_ptr \<Rightarrow> SLPTree
       \<Rightarrow> (pack_ptr option \<times> SLPTree) option"
where
  "BuildTreeRec G maxd node_group recursion_depth s =
     (if recursion_depth = maxd then Some (None, s)
      else if AllOnStack s node_group \<and> \<not> StackTopIsPhi G s then Some (None, s)
      else if \<not> CanBePacked G node_group then Some (None, PushStack node_group s)
      else
        (case first_registered (PushStack node_group s) node_group of
           Some p \<Rightarrow>
             if \<not> IsSame (pack_at (PushStack node_group s) p) node_group
             then Some (None, PushStack node_group s)
             else Some (Some p, PopStack (PushStack node_group s))
         | None \<Rightarrow>
             if opcode G (node_group ! 0) = kExtractF128 then
               (if InputAt G (node_group ! 0) 0 = InputAt G (node_group ! 1) 0 \<and>
                   (if opcode G (InputAt G (node_group ! 0) 0) = kLoadTransform
                    then node_group ! 0 = node_group ! 1
                    else OpParameter_int32 (op_of G (node_group ! 0)) + 1 =
                         OpParameter_int32 (op_of G (node_group ! 1)))
                then Some (Some (fst (NewPackNode node_group (PushStack node_group s))),
                           PopStack (snd (NewPackNode node_group (PushStack node_group s))))
                else Some (None, PushStack node_group s))
             else if opcode G (node_group ! 0) = kProtectedLoad \<or>
                     opcode G (node_group ! 0) = kLoadTransform then
               (if \<not> AllSameAddress G node_group then Some (None, PushStack node_group s)
                else if opcode G (node_group ! 0) = kProtectedLoad \<and>
                        representation (op_of G (node_group ! 0)) \<noteq> kSimd128
                then Some (None, PushStack node_group s)
                else if opcode G (node_group ! 0) = kProtectedLoad \<and>
                        \<not> IsContinuousAccess G (sorted_node_group G node_group)
                then Some (None, PushStack node_group s)
                else if opcode G (node_group ! 0) = kLoadTransform \<and> \<not> IsSplat node_group
                then Some (None, PushStack node_group s)
                else if opcode G (node_group ! 0) = kLoadTransform \<and>
                        transformation (op_of G (node_group ! 0)) \<noteq> kS128Load32Splat \<and>
                        transformation (op_of G (node_group ! 0)) \<noteq> kS128Load64Splat
                then Some (None, PushStack node_group s)
                else
                  (case IsSideEffectFreeLoad G (PushStack node_group s) node_group of
                     None \<Rightarrow> None
                   | Some free \<Rightarrow>
                       if \<not> free then Some (None, PushStack node_group s)
                       else Some (Some (fst (NewPackNode node_group (PushStack node_group s))),
                                  PopStack (snd (NewPackNode node_group (PushStack node_group s))))))
             else if opcode G (node_group ! 0) = kPhi \<or>
                     opcode G (node_group ! 0) = kLoopExitValue then
               (if representation (op_of G (node_group ! 0)) \<noteq> kSimd128
                then Some (None, PushStack node_group s)
                else
                  (case NewPackNodeAndRecurs G maxd node_group 0
                          (ValueInputCount (op_of G (node_group ! 0))) recursion_depth
                          (PushStack node_group s) of
                     None \<Rightarrow> None
                   | Some r \<Rightarrow> Some (fst r, PopStack (snd r))))
             else if opcode G (node_group ! 0) = kF32x4Add \<or>
                     opcode G (node_group ! 0) = kF32x4Mul then
               (case NewPackNodeAndRecurs G maxd node_group 0
                       (ValueInputCount (op_of G (node_group ! 0))) recursion_depth
                       (PushStack node_group s) of
                  None \<Rightarrow> None
                | Some r \<Rightarrow> Some (fst r, PopStack (snd r)))
             else if opcode G (node_group ! 0) = kStore \<or>
                     opcode G (node_group ! 0) = kProtectedStore then
               (if \<not> AllSameAddress G node_group then Some (None, PushStack node_group s)
                else
                  (case NewPackNodeAndRecurs G maxd node_group 2 1 recursion_depth
                          (PushStack node_group s) of
                     None \<Rightarrow> None
                   | Some r \<Rightarrow> Some (fst r, PopStack (snd r))))
             else Some (None, PushStack node_group s)))"
| "NewPackNodeAndRecurs G maxd node_group start_index count recursion_depth s =
     NewPackNodeAndRecurs_loop G maxd node_group start_index (start_index + count)
       recursion_depth (fst (NewPackNode node_group s)) (snd (NewPackNode node_group s))"
| "NewPackNodeAndRecurs_loop G maxd node_group i end_index recursion_depth pnode s =
     (if i < end_index then
        (case BuildTreeRec G maxd (map (\<lambda>n. GetValueInput G n i) node_group)
                (recursion_depth + 1) s of
           None \<Rightarrow> None
         | Some r \<Rightarrow>
             (case fst r of
                Some child \<Rightarrow>
                  NewPackNodeAndRecurs_loop G maxd node_group (Suc i) end_index recursion_depth
                    pnode (SetOperand pnode i child (snd r))
              | None \<Rightarrow> Some (None, snd r)))
      else Some (Some pnode, s))"
  by pat_completeness auto
termination
proof -
  have dec: "Suc (Suc (3 * (unat (maxd - d) - Suc 0))) < 3 * unat (maxd - d)"
    if "d \<noteq> maxd" for d maxd :: "32 word"
  proof -
    from that have "maxd - d \<noteq> 0" by simp
    then have "0 < unat (maxd - d)" by (simp add: unat_gt_0)
    then show ?thesis by arith
  qed
  show ?thesis
    by (relation "inv_image (less_than <*lex*> less_than)
          (\<lambda>x. case x of
             Inl (G, maxd, g, d, s) \<Rightarrow> (3 * unat (maxd - d), 0)
           | Inr (Inl (G, maxd, g, a, c, d, s)) \<Rightarrow> (3 * unat (maxd - (d + 1)) + 2, 0)
           | Inr (Inr (G, maxd, g, i, e, d, p, s)) \<Rightarrow> (3 * unat (maxd - (d + 1)) + 1, e - i))")
       (auto simp: unat_minus_one diff_diff_eq [symmetric] dec)
qed

definition BuildTree :: "Graph \<Rightarrow> 32 word \<Rightarrow> node list \<Rightarrow> SLPTree \<Rightarrow> (pack_ptr option \<times> SLPTree) option" where
  "BuildTree G maxd roots s =
     (case BuildTreeRec G maxd roots 0 (DeleteTree s) of
        None \<Rightarrow> None
      | Some r \<Rightarrow> Some (fst r, (snd r)\<lparr>root := fst r\<rparr>))"

section \<open>Seed collection and the driver\<close>

text \<open>
  Modelled from the spec: \<open>StoreNodeSet\<close> is declared outside \<open>revectorizer.cc\<close>: an
  ordered set of store nodes keyed by constant memory offset, ascending. It is the list of
  its members in iteration order; inserting a node whose offset is neither below nor above
  that of a member leaves the set as it is.
\<close>

fun StoreNodeSet_insert :: "Graph \<Rightarrow> node \<Rightarrow> node list \<Rightarrow> node list" where
  "StoreNodeSet_insert G n [] = [n]"
| "StoreNodeSet_insert G n (m # ms) =
     (if MemoryOffsetComparer G n m then n # m # ms
      else if MemoryOffsetComparer G m n then m # StoreNodeSet_insert G n ms
      else m # ms)"

text \<open>
  \<open>group_of_stores_\<close> maps a dominator to a map from an address to a \<open>StoreNodeSet\<close>.
  One round of the loop of \<open>CollectSeeds\<close>; \<open>%\<close> on \<open>int64_t\<close> truncates towards
  zero.
\<close>

type_synonym group_of_stores = "node \<rightharpoonup> (node \<rightharpoonup> node list)"

definition CollectSeeds_step :: "Graph \<Rightarrow> node \<Rightarrow> group_of_stores \<Rightarrow> group_of_stores" where
  "CollectSeeds_step G n gs =
     (let dominator = GetEarlySchedulePosition G n in
      if sint (GetMemoryOffsetValue G n) smod sint kSimd128Size \<noteq> 0 then gs
      else
        (let address = GetNodeAddress G n;
             store_nodes = (case gs dominator of None \<Rightarrow> Map.empty | Some m \<Rightarrow> m);
             store_set = (case store_nodes address of None \<Rightarrow> [] | Some st \<Rightarrow> st)
         in gs(dominator \<mapsto> store_nodes(address \<mapsto> StoreNodeSet_insert G n store_set))))"

definition CollectSeeds :: "Graph \<Rightarrow> group_of_stores \<Rightarrow> group_of_stores" where
  "CollectSeeds G gs = fold (CollectSeeds_step G) (GetSimdStoreNodes G) gs"

definition ReduceStoreChain ::
  "Graph \<Rightarrow> 32 word \<Rightarrow> node list \<Rightarrow> SLPTree \<Rightarrow> (bool \<times> SLPTree) option" where
  "ReduceStoreChain G maxd Stores s =
     (if \<not> IsContinuousAccess G Stores then Some (False, s)
      else
        (case BuildTree G maxd Stores s of
           None \<Rightarrow> None
         | Some r \<Rightarrow> (case fst r of None \<Rightarrow> Some (False, snd r) | Some p \<Rightarrow> Some (True, snd r))))"

text \<open>
  The inner loop of \<open>ReduceStoreChains\<close> over one chain, \<open>it = it + 2\<close>, carrying
  \<open>changed\<close>: \<open>stores_unit\<close> is the two stores at \<open>it\<close>. The loop is entered on chains of
  even size only, so the case of one remaining store does not arise; the model stops there.
\<close>

fun ReduceStoreChains_units ::
  "Graph \<Rightarrow> 32 word \<Rightarrow> node list \<Rightarrow> bool \<Rightarrow> SLPTree \<Rightarrow> (bool \<times> SLPTree) option" where
  "ReduceStoreChains_units G maxd (a # b # rest) changed s =
     (case ReduceStoreChain G maxd [a, b] s of
        None \<Rightarrow> None
      | Some r \<Rightarrow> ReduceStoreChains_units G maxd rest (if fst r then True else changed) (snd r))"
| "ReduceStoreChains_units G maxd [a] changed s = Some (changed, s)"
| "ReduceStoreChains_units G maxd [] changed s = Some (changed, s)"

text \<open>
  The outer loop over the entries of \<open>store_chains\<close>, given in iteration order as pairs of
  an address and its \<open>StoreNodeSet\<close>.
\<close>

fun ReduceStoreChains_from ::
  "Graph \<Rightarrow> 32 word \<Rightarrow> (node \<times> node list) list \<Rightarrow> bool \<Rightarrow> SLPTree \<Rightarrow> (bool \<times> SLPTree) option"
  where
  "ReduceStoreChains_from G maxd [] changed s = Some (changed, s)"
| "ReduceStoreChains_from G maxd (entry # entries) changed s =
     (if length (snd entry) \<ge> 2 \<and> length (snd entry) mod 2 = 0 then
        (case ReduceStoreChains_units G maxd (snd entry) changed s of
           None \<Rightarrow> None
         | Some r \<Rightarrow> ReduceStoreChains_from G maxd entries (fst r) (snd r))
      else ReduceStoreChains_from G maxd entries changed s)"

definition ReduceStoreChains ::
  "Graph \<Rightarrow> 32 word \<Rightarrow> (node \<times> node list) list \<Rightarrow> SLPTree \<Rightarrow> (bool \<times> SLPTree) option" where
  "ReduceStoreChains G maxd store_chains s = ReduceStoreChains_from G maxd store_chains False s"

section \<open>What the spec says of the driver\<close>

text \<open>A node is a seed when it is a member of some \<open>StoreNodeSet\<close> of the map.\<close>

definition is_seed :: "group_of_stores \<Rightarrow> node \<Rightarrow> bool" where
  "is_seed gs n = (\<exists>d m a st. gs d = Some m \<and> m a = Some st \<and> n \<in> set st)"

text \<open>
  In the spec's words: the offset-ordered sequence of a set, walked in strides of two, as
  consecutive two-element groups that do not overlap.
\<close>

definition store_units :: "node list \<Rightarrow> node list list" where
  "store_units store_chain =
     map (\<lambda>k. [store_chain ! (2 * k), store_chain ! (2 * k + 1)]) [0..<length store_chain div 2]"

text \<open>The groups of every set whose size is at least 2 and even, set after set.\<close>

definition seed_groups :: "(node \<times> node list) list \<Rightarrow> node list list" where
  "seed_groups store_chains =
     concat (map (\<lambda>entry. if 2 \<le> length (snd entry) \<and> even (length (snd entry))
                           then store_units (snd entry) else [])
                 store_chains)"

text \<open>\<open>ReduceStoreChain\<close> invoked on each group of a list in turn.\<close>

fun ReduceStoreChain_each ::
  "Graph \<Rightarrow> 32 word \<Rightarrow> node list list \<Rightarrow> bool \<Rightarrow> SLPTree \<Rightarrow> (bool \<times> SLPTree) option" where
  "ReduceStoreChain_each G maxd [] changed s = Some (changed, s)"
| "ReduceStoreChain_each G maxd (u # us) changed s =
     (case ReduceStoreChain G maxd u s of
        None \<Rightarrow> None
      | Some r \<Rightarrow> ReduceStoreChain_each G maxd us (if fst r then True else changed) (snd r))"

section \<open>Example graphs\<close>

text \<open>An operator with the given opcode and number of value inputs, and no parameter.\<close>

definition plain_op :: "IrOpcode \<Rightarrow> nat \<Rightarrow> Operator" where
  "plain_op c k =
     \<lparr>opcode_of = c, ValueInputCount = k, OpParameter_int64 = 0, OpParameter_int32 = 0,
      representation = kOtherRepresentation 0, transformation = kOtherTransformation 0\<rparr>"

text \<open>An empty tree: nothing on the stack, nothing registered, nothing allocated.\<close>

definition empty_tree :: SLPTree where
  "empty_tree =
     \<lparr>on_stack = {}, stack = [], node_to_packnode = Map.empty,
      pack_at = (\<lambda>p. \<lparr>nodes = [], operands = Map.empty, revectorized_node = None\<rparr>),
      zone_next = 0, root = None\<rparr>"

text \<open>
  A store (node 0) whose input 0 is an \<open>Int64Add\<close> (node 1) of a constant that is not an
  \<open>Int64Constant\<close> (node 2: a constant of another opcode, as an external or a relocatable
  constant is) and of the \<open>Int64Constant\<close> 16 (node 3); every node has its own operator.
\<close>

definition offset_graph :: Graph where
  "offset_graph =
     \<lparr>node_op = (\<lambda>n. n),
      operator_at = (\<lambda>p.
        if p = 0 then plain_op kProtectedStore 3
        else if p = 1 then plain_op kInt64Add 2
        else if p = 2 then plain_op (kOtherOpcode 0) 0
        else (plain_op kInt64Constant 0)\<lparr>OpParameter_int64 := 16\<rparr>),
      InputAt = (\<lambda>n i. if n = 0 then (if i = 0 then 1 else 4)
                        else if n = 1 then (if i = 0 then 2 else 3) else 4),
      IsConstant = (\<lambda>n. n = 2 \<or> n = 3),
      IsPhi = (\<lambda>n. False),
      IsSimd128Operation = (\<lambda>n. False),
      FirstControlIndex = (\<lambda>n. 0),
      SameBasicBlock = (\<lambda>a b. True),
      GetEarlySchedulePosition = (\<lambda>n. 5),
      GetSimdStoreNodes = [0]\<rparr>"

text \<open>
  A graph with the shapes the pass meets. Node 1 is the memory start (a \<open>Load\<close>), node 2
  the \<open>Int64Constant\<close> 16, node 3 their \<open>Int64Add\<close>, nodes 4 and 6 are indices, node 5
  is the effect input, in a block of its own.
  Nodes 10 and 11 are \<open>ProtectedLoad\<close>s of 128 bits at offsets 0 and 16 of index 4, and
  20 and 21 are \<open>ProtectedStore\<close>s of them at offsets 0 and 16. Store 22 has an address
  input that is neither a load nor an \<open>Int64Add\<close>. Stores 23 and 24 store the index 6,
  which cannot be packed. Nodes 30 and 31 are plain \<open>Load\<close>s. Nodes 41 and 42 are
  \<open>ExtractF128\<close> of lanes 0 and 1 of node 40. Nodes 50 and 51 are \<open>ProtectedLoad\<close>s like
  10 and 11, but 51 is in another block. Nodes 60 and 61 are \<open>F32x4Add\<close>s, 60 of 61 and
  62, and 61 of 62 twice; stores 25 and 26 store them. Nodes 70 and 71 are \<open>Phi\<close>s of 128
  bits, of a load and of an \<open>F32x4Add\<close> (74 and 75) of the \<open>Phi\<close> itself and the load,
  as an accumulating loop has them; stores 27 and 28 store the \<open>Phi\<close>s.
\<close>

definition example_inputs :: "node \<Rightarrow> node list" where
  "example_inputs n =
     (if n = 3 then [1, 2]
      else if n = 10 \<or> n = 30 \<or> n = 50 then [1, 4, 5]
      else if n = 11 \<or> n = 31 \<or> n = 51 then [3, 4, 5]
      else if n = 20 then [1, 4, 10, 5]
      else if n = 21 then [3, 4, 11, 5]
      else if n = 22 then [4, 4, 10, 5]
      else if n = 23 then [1, 6, 6, 5]
      else if n = 24 then [3, 6, 6, 5]
      else if n = 25 then [1, 4, 60, 5]
      else if n = 26 then [3, 4, 61, 5]
      else if n = 27 then [1, 4, 70, 5]
      else if n = 28 then [3, 4, 71, 5]
      else if n = 41 \<or> n = 42 then [40]
      else if n = 60 then [61, 62]
      else if n = 61 then [62, 62]
      else if n = 70 then [10, 74]
      else if n = 71 then [11, 75]
      else if n = 74 then [70, 10]
      else if n = 75 then [71, 11]
      else [])"

definition example_operator :: "op_ptr \<Rightarrow> Operator" where
  "example_operator p =
     (if p = 1 then plain_op kLoad 2
      else if p = 2 then (plain_op kInt64Constant 0)\<lparr>OpParameter_int64 := 16\<rparr>
      else if p = 3 then plain_op kInt64Add 2
      else if p = 6 then (plain_op kProtectedLoad 2)\<lparr>representation := kSimd128\<rparr>
      else if p = 7 then plain_op kProtectedStore 3
      else if p = 8 then plain_op kLoad 2
      else if p = 10 then (plain_op kExtractF128 1)\<lparr>OpParameter_int32 := 0\<rparr>
      else if p = 11 then (plain_op kExtractF128 1)\<lparr>OpParameter_int32 := 1\<rparr>
      else if p = 12 then plain_op kF32x4Add 2
      else if p = 13 then (plain_op kPhi 2)\<lparr>representation := kSimd128\<rparr>
      else plain_op (kOtherOpcode p) 0)"

definition example_node_op :: "node \<Rightarrow> op_ptr" where
  "example_node_op n =
     (if n = 10 \<or> n = 11 \<or> n = 50 \<or> n = 51 then 6
      else if 20 \<le> n \<and> n \<le> 28 then 7
      else if n = 30 \<or> n = 31 then 8
      else if n = 41 then 10
      else if n = 42 then 11
      else if n = 60 \<or> n = 61 \<or> n = 74 \<or> n = 75 then 12
      else if n = 70 \<or> n = 71 then 13
      else if n = 6 then 4
      else n)"

definition example_block :: "node \<Rightarrow> nat" where
  "example_block n = (if n = 5 then 0 else if n = 51 then 2 else 1)"

definition example_graph :: Graph where
  "example_graph =
     \<lparr>node_op = example_node_op,
      operator_at = example_operator,
      InputAt = (\<lambda>n i. if i < length (example_inputs n) then example_inputs n ! i else 0),
      IsConstant = (\<lambda>n. n = 2),
      IsPhi = (\<lambda>n. n = 70 \<or> n = 71),
      IsSimd128Operation = (\<lambda>n. n = 60 \<or> n = 61 \<or> n = 62 \<or> n = 74 \<or> n = 75),
      FirstControlIndex = (\<lambda>n. length (example_inputs n)),
      SameBasicBlock = (\<lambda>a b. example_block a = example_block b),
      GetEarlySchedulePosition = (\<lambda>n. 5),
      GetSimdStoreNodes = [20, 21, 22, 23, 24, 25, 26]\<rparr>"

text \<open>
  A graph with a cycle: nodes 1 and 2 are each the input of the other, and the loads 10 and
  11 both read node 1. Every node has one input before its first control input, and all
  nodes are in one block.
\<close>

definition cyclic_graph :: Graph where
  "cyclic_graph =
     \<lparr>node_op = (\<lambda>n. n),
      operator_at = (\<lambda>p. plain_op (if p = 10 \<or> p = 11 then kProtectedLoad else kOtherOpcode p) 1),
      InputAt = (\<lambda>n i. if n = 1 then 2 else 1),
      IsConstant = (\<lambda>n. False),
      IsPhi = (\<lambda>n. n = 1),
      IsSimd128Operation = (\<lambda>n. False),
      FirstControlIndex = (\<lambda>n. 1),
      SameBasicBlock = (\<lambda>a b. True),
      GetEarlySchedulePosition = (\<lambda>n. 0),
      GetSimdStoreNodes = []\<rparr>"

text \<open>
  The state of the tree when \<open>BuildTree\<close> on the stores 25 and 26 of \<open>example_graph\<close>
  has pushed and packed the stores and their values 60 and 61, and recurses into operand 0
  of the latter.
\<close>

definition partly_on_stack_state :: SLPTree where
  "partly_on_stack_state =
     snd (NewPackNode [60, 61] (PushStack [60, 61]
       (snd (NewPackNode [25, 26] (PushStack [25, 26] empty_tree)))))"

text \<open>
  The state of the tree when \<open>BuildTree\<close> on the stores 27 and 28 of \<open>example_graph\<close>
  has pushed and packed the stores and the \<open>Phi\<close>s 70 and 71, has packed the loads 10 and
  11 as operand 0 of the \<open>Phi\<close>s, has pushed and packed the \<open>F32x4Add\<close>s 74 and 75, and
  recurses into operand 0 of the latter, which is the group of the \<open>Phi\<close>s again.
\<close>

definition loop_state :: SLPTree where
  "loop_state =
     snd (NewPackNode [74, 75] (PushStack [74, 75]
       (SetOperand 1 0 2
         (PopStack (snd (NewPackNode [10, 11] (PushStack [10, 11]
           (snd (NewPackNode [70, 71] (PushStack [70, 71]
             (snd (NewPackNode [27, 28] (PushStack [27, 28] empty_tree)))))))))))))"

text \<open>
  The state of the tree after \<open>BuildTreeRec\<close> has packed the loads 10 and 11 of
  \<open>example_graph\<close> as a leaf, on an empty tree.
\<close>

definition leaf_packed_state :: SLPTree where
  "leaf_packed_state = PopStack (snd (NewPackNode [10, 11] (PushStack [10, 11] empty_tree)))"

section \<open>Properties of the registry\<close>

text \<open>No plain \<open>Load\<close> node is registered to a pack.\<close>

definition no_load_registered :: "Graph \<Rightarrow> SLPTree \<Rightarrow> bool" where
  "no_load_registered G s = (\<forall>n. opcode G n = kLoad \<longrightarrow> node_to_packnode s n = None)"

text \<open>
  The registry and the packs allocated from the address \<open>base\<close> on agree: every node of
  such a pack is registered to that pack, and every registered node is registered to such a
  pack, of which it is a node.
\<close>

definition registry_consistent :: "pack_ptr \<Rightarrow> SLPTree \<Rightarrow> bool" where
  "registry_consistent base s =
     (base \<le> zone_next s \<and>
      (\<forall>p n. base \<le> p \<and> p < zone_next s \<and> n \<in> set (nodes (pack_at s p))
             \<longrightarrow> node_to_packnode s n = Some p) \<and>
      (\<forall>n p. node_to_packnode s n = Some p
             \<longrightarrow> base \<le> p \<and> p < zone_next s \<and> n \<in> set (nodes (pack_at s p))))"

section \<open>Offset extraction\<close>

lemma GetConstantValue_cases:
  "GetConstantValue G n =
     (if opcode G n = kInt64Constant then OpParameter_int64 (op_of G n) else - 1)"
  by (simp add: GetConstantValue_def)

text \<open>
  C6, as the code has it. The extracted offset of a load or store node is 0 when its input
  0 is a \<open>Load\<close> or a \<open>LoadFromObject\<close>. When input 0 is an \<open>Int64Add\<close>, only the first
  of its two inputs that is a constant node (\<open>NodeProperties::IsConstant\<close>) is looked at:
  the offset is the value of that input when it is an \<open>Int64Constant\<close> and \<open>-1\<close> when it
  is a constant of another opcode; it is \<open>-1\<close> when neither input is a constant. For any
  other input 0 the offset is \<open>-1\<close>.
\<close>

theorem GetMemoryOffsetValue_extraction:
  "GetMemoryOffsetValue G n =
     (if opcode G (InputAt G n 0) = kLoad \<or> opcode G (InputAt G n 0) = kLoadFromObject then 0
      else if opcode G (InputAt G n 0) = kInt64Add then
        (if IsConstant G (InputAt G (InputAt G n 0) 0) then
           (if opcode G (InputAt G (InputAt G n 0) 0) = kInt64Constant
            then OpParameter_int64 (op_of G (InputAt G (InputAt G n 0) 0)) else - 1)
         else if IsConstant G (InputAt G (InputAt G n 0) 1) then
           (if opcode G (InputAt G (InputAt G n 0) 1) = kInt64Constant
            then OpParameter_int64 (op_of G (InputAt G (InputAt G n 0) 1)) else - 1)
         else - 1)
      else - 1)"
  by (auto simp: GetMemoryOffsetValue_def GetConstantValue_cases Let_def)

theorem GetMemoryOffsetValue_extraction_witness:
  "GetMemoryOffsetValue offset_graph 0 = - 1 \<and> GetMemoryOffsetValue offset_graph 1 = - 1"
  using GetMemoryOffsetValue_extraction [of offset_graph 0]
    GetMemoryOffsetValue_extraction [of offset_graph 1]
  by (simp add: offset_graph_def opcode_def op_of_def plain_op_def)

text \<open>
  The claim as the spec words it fails on the store of \<open>offset_graph\<close>: its input 0 is an
  \<open>Int64Add\<close> whose input 1 is the \<open>Int64Constant\<close> 16, and whose input 0 is not an
  \<open>Int64Constant\<close>, yet the extracted offset is \<open>-1\<close> and not 16, because input 0 is a
  constant of another opcode.
\<close>

theorem GetMemoryOffsetValue_counterexample:
  "opcode offset_graph (InputAt offset_graph 0 0) = kInt64Add \<and>
   opcode offset_graph (InputAt offset_graph (InputAt offset_graph 0 0) 0) \<noteq> kInt64Constant \<and>
   opcode offset_graph (InputAt offset_graph (InputAt offset_graph 0 0) 1) = kInt64Constant \<and>
   OpParameter_int64 (op_of offset_graph (InputAt offset_graph (InputAt offset_graph 0 0) 1)) = 16 \<and>
   GetMemoryOffsetValue offset_graph 0 = - 1 \<and>
   GetMemoryOffsetValue offset_graph 0 \<noteq> 16"
  by (simp add: offset_graph_def opcode_def op_of_def plain_op_def GetMemoryOffsetValue_def
      GetConstantValue_def)

section \<open>Evaluating the examples\<close>

lemmas ex_simps = example_graph_def example_inputs_def example_operator_def example_node_op_def
  example_block_def plain_op_def opcode_def op_of_def

section \<open>Seeds and store chains\<close>

lemma unaligned: "sint (- 1 :: int64) smod sint kSimd128Size \<noteq> 0"
  by (simp add: kSimd128Size_def signed_modulo_int_def)

lemma StoreNodeSet_insert_subset: "set (StoreNodeSet_insert G n st) \<subseteq> insert n (set st)"
  by (induction st) auto

lemma CollectSeeds_step_seed:
  assumes "is_seed (CollectSeeds_step G m gs) x"
  shows "is_seed gs x \<or> (x = m \<and> sint (GetMemoryOffsetValue G m) smod sint kSimd128Size = 0)"
proof (cases "sint (GetMemoryOffsetValue G m) smod sint kSimd128Size = 0")
  case False
  with assms show ?thesis by (simp add: CollectSeeds_step_def Let_def)
next
  case True
  from assms obtain d mp a st where
    h: "CollectSeeds_step G m gs d = Some mp" "mp a = Some st" "x \<in> set st"
    unfolding is_seed_def by blast
  show ?thesis
  proof (cases "d = GetEarlySchedulePosition G m \<and> a = GetNodeAddress G m")
    case False
    with h True have "is_seed gs x"
      unfolding is_seed_def CollectSeeds_step_def Let_def
      by (auto split: if_splits option.splits) blast+
    then show ?thesis ..
  next
    case da: True
    with h True have "x \<in> set (StoreNodeSet_insert G m
        (case (case gs d of None \<Rightarrow> Map.empty | Some mm \<Rightarrow> mm) a of None \<Rightarrow> [] | Some st \<Rightarrow> st))"
      unfolding CollectSeeds_step_def Let_def by auto
    with StoreNodeSet_insert_subset have
      "x = m \<or> x \<in> set (case (case gs d of None \<Rightarrow> Map.empty | Some mm \<Rightarrow> mm) a of None \<Rightarrow> [] | Some st \<Rightarrow> st)"
      by fastforce
    then show ?thesis using True
      unfolding is_seed_def by (auto split: option.splits) (metis+)
  qed
qed

lemma fold_CollectSeeds_seed:
  "is_seed (fold (CollectSeeds_step G) ns gs) x \<Longrightarrow>
   is_seed gs x \<or> (x \<in> set ns \<and> sint (GetMemoryOffsetValue G x) smod sint kSimd128Size = 0)"
proof (induction ns arbitrary: gs)
  case Nil
  then show ?case by simp
next
  case (Cons m ns)
  from Cons.IH [of "CollectSeeds_step G m gs"] Cons.prems
  have "is_seed (CollectSeeds_step G m gs) x \<or>
        (x \<in> set ns \<and> sint (GetMemoryOffsetValue G x) smod sint kSimd128Size = 0)" by simp
  then show ?case using CollectSeeds_step_seed [of G m gs x] by auto
qed

lemma store_units_Cons2: "store_units (a # b # rest) = [a, b] # store_units rest"
proof -
  have "[0..<Suc n] = 0 # map Suc [0..<n]" for n
    by (simp add: upt_conv_Cons map_Suc_upt del: upt_Suc)
  then show ?thesis
    by (simp add: store_units_def comp_def del: upt_Suc)
qed

lemma store_units_Nil: "store_units [] = []"
  by (simp add: store_units_def)

lemma store_units_single: "store_units [a] = []"
  by (simp add: store_units_def)

lemma store_units_members: "u \<in> set (store_units st) \<Longrightarrow> set u \<subseteq> set st \<and> length u = 2"
  by (induction st arbitrary: u rule: induct_list012)
     (auto simp: store_units_Nil store_units_single store_units_Cons2)

lemma concat_store_units: "even (length st) \<Longrightarrow> concat (store_units st) = st"
  by (induction st rule: induct_list012)
     (auto simp: store_units_Nil store_units_Cons2)

lemma ReduceStoreChains_units_each:
  "even (length st) \<Longrightarrow>
   ReduceStoreChains_units G maxd st changed s = ReduceStoreChain_each G maxd (store_units st) changed s"
  by (induction G maxd st changed s rule: ReduceStoreChains_units.induct)
     (auto simp: store_units_Nil store_units_Cons2 split: option.splits)

lemma ReduceStoreChain_each_append:
  "ReduceStoreChain_each G maxd (us @ vs) changed s =
     (case ReduceStoreChain_each G maxd us changed s of
        None \<Rightarrow> None
      | Some r \<Rightarrow> ReduceStoreChain_each G maxd vs (fst r) (snd r))"
  by (induction us arbitrary: changed s) (auto split: option.splits)

lemma ReduceStoreChains_from_each:
  "ReduceStoreChains_from G maxd store_chains changed s =
   ReduceStoreChain_each G maxd (seed_groups store_chains) changed s"
proof (induction store_chains arbitrary: changed s)
  case Nil
  show ?case by (simp add: seed_groups_def)
next
  case (Cons entry entries)
  have sg: "seed_groups (entry # entries) =
      (if 2 \<le> length (snd entry) \<and> even (length (snd entry)) then store_units (snd entry) else [])
      @ seed_groups entries"
    by (simp add: seed_groups_def)
  show ?case
  proof (cases "2 \<le> length (snd entry) \<and> length (snd entry) mod 2 = 0")
    case True
    then show ?thesis
      by (simp add: sg ReduceStoreChain_each_append ReduceStoreChains_units_each Cons.IH
          even_iff_mod_2_eq_zero split: option.splits)
  next
    case False
    then show ?thesis
      by (auto simp: sg Cons.IH even_iff_mod_2_eq_zero)
  qed
qed

text \<open>
  C8. \<open>ReduceStoreChains\<close> does what invoking \<open>ReduceStoreChain\<close> on the groups of
  \<open>seed_groups\<close>, in order, does: the groups come only from sets whose size is at least
  2 and even, each group has two elements, and the groups of a set are its consecutive
  pairs, which do not overlap and together are the whole sequence. So a chain of size 3
  leaves the tree as it was and reports no change, and a chain of size 4 is handled as two
  groups of two stores.
\<close>

theorem ReduceStoreChains_groups:
  "ReduceStoreChains G maxd store_chains s =
     ReduceStoreChain_each G maxd (seed_groups store_chains) False s \<and>
   (\<forall>u \<in> set (seed_groups store_chains). length u = 2 \<and>
      (\<exists>entry \<in> set store_chains. 2 \<le> length (snd entry) \<and> even (length (snd entry)) \<and>
         u \<in> set (store_units (snd entry)) \<and> set u \<subseteq> set (snd entry))) \<and>
   (\<forall>entry \<in> set store_chains. even (length (snd entry)) \<longrightarrow>
      concat (store_units (snd entry)) = snd entry) \<and>
   ReduceStoreChains G maxd [(a, [x, y, z])] s = Some (False, s) \<and>
   ReduceStoreChains G maxd [(a, [w, x, y, z])] s =
     ReduceStoreChain_each G maxd [[w, x], [y, z]] False s"
proof (intro conjI ballI impI)
  show "ReduceStoreChains G maxd store_chains s =
     ReduceStoreChain_each G maxd (seed_groups store_chains) False s"
    by (simp add: ReduceStoreChains_def ReduceStoreChains_from_each)
next
  fix u assume "u \<in> set (seed_groups store_chains)"
  then show "length u = 2"
    by (auto simp: seed_groups_def store_units_members split: if_splits)
next
  fix u assume "u \<in> set (seed_groups store_chains)"
  then show "\<exists>entry \<in> set store_chains. 2 \<le> length (snd entry) \<and> even (length (snd entry)) \<and>
         u \<in> set (store_units (snd entry)) \<and> set u \<subseteq> set (snd entry)"
    using store_units_members by (fastforce simp: seed_groups_def split: if_splits)
next
  fix entry assume "entry \<in> set store_chains" "even (length (snd entry))"
  then show "concat (store_units (snd entry)) = snd entry"
    by (simp add: concat_store_units)
next
  show "ReduceStoreChains G maxd [(a, [x, y, z])] s = Some (False, s)"
    by (simp add: ReduceStoreChains_def)
next
  show "ReduceStoreChains G maxd [(a, [w, x, y, z])] s =
     ReduceStoreChain_each G maxd [[w, x], [y, z]] False s"
    by (simp add: ReduceStoreChains_def split: option.splits)
qed

text \<open>
  C10. A store whose input 0 is neither a \<open>Load\<close> or \<open>LoadFromObject\<close> nor an
  \<open>Int64Add\<close> with a constant input has the offset \<open>-1\<close>; \<open>CollectSeeds\<close> skips it,
  so it is in no \<open>StoreNodeSet\<close> of the map that \<open>CollectSeeds\<close> builds, and in no
  group of two stores taken from such a set as the roots of a tree.
\<close>

theorem unrecognized_store_never_seed:
  assumes "opcode G (InputAt G n 0) \<noteq> kLoad" and "opcode G (InputAt G n 0) \<noteq> kLoadFromObject"
    and "opcode G (InputAt G n 0) = kInt64Add \<longrightarrow>
           \<not> IsConstant G (InputAt G (InputAt G n 0) 0) \<and>
           \<not> IsConstant G (InputAt G (InputAt G n 0) 1)"
  shows "GetMemoryOffsetValue G n = - 1 \<and>
         CollectSeeds_step G n gs = gs \<and>
         (\<not> is_seed gs n \<longrightarrow> \<not> is_seed (CollectSeeds G gs) n) \<and>
         \<not> is_seed (CollectSeeds G Map.empty) n \<and>
         (\<forall>d m a st. CollectSeeds G Map.empty d = Some m \<longrightarrow> m a = Some st \<longrightarrow>
            (\<forall>u \<in> set (store_units st). n \<notin> set u))"
proof -
  from assms have off: "GetMemoryOffsetValue G n = - 1"
    by (auto simp: GetMemoryOffsetValue_def Let_def)
  then have na: "sint (GetMemoryOffsetValue G n) smod sint kSimd128Size \<noteq> 0"
    using unaligned by simp
  then have step: "CollectSeeds_step G n gs = gs"
    by (simp add: CollectSeeds_step_def Let_def)
  have keep: "\<not> is_seed (CollectSeeds G gs') n" if "\<not> is_seed gs' n" for gs'
    using that na fold_CollectSeeds_seed [of G "GetSimdStoreNodes G" gs' n]
    by (auto simp: CollectSeeds_def)
  have empty: "\<not> is_seed Map.empty n" by (simp add: is_seed_def)
  have units: "n \<notin> set u"
    if "CollectSeeds G Map.empty d = Some m" "m a = Some st" "u \<in> set (store_units st)" for d m a st u
  proof
    assume "n \<in> set u"
    with that(3) store_units_members have "n \<in> set st" by blast
    with that(1,2) have "is_seed (CollectSeeds G Map.empty) n" unfolding is_seed_def by blast
    with keep [OF empty] show False by simp
  qed
  from off step keep empty units show ?thesis by blast
qed

theorem unrecognized_store_never_seed_witness:
  "GetMemoryOffsetValue example_graph 22 = - 1 \<and>
   \<not> is_seed (CollectSeeds example_graph Map.empty) 22"
  using unrecognized_store_never_seed [of example_graph 22 Map.empty]
  by (simp add: ex_simps)

theorem ReduceStoreChains_groups_witness:
  "ReduceStoreChains example_graph 8 [(4, [20, 21]), (6, [23, 24, 25])] empty_tree =
     ReduceStoreChain_each example_graph 8 [[20, 21]] False empty_tree \<and>
   seed_groups [(4, [20, 21]), (6, [23, 24, 25])] = [[20, 21]]"
  using ReduceStoreChains_groups [of example_graph 8 "[(4, [20, 21]), (6, [23, 24, 25])]" empty_tree]
  by (simp add: seed_groups_def store_units_def)


section \<open>The state primitives and the shape of \<open>BuildTreeRec\<close>\<close>

declare BuildTreeRec.simps [simp del] NewPackNodeAndRecurs.simps [simp del]
  NewPackNodeAndRecurs_loop.simps [simp del]

lemma AllOnStack_pair: "AllOnStack s [a, b] = (OnStack s a \<or> OnStack s b)"
  by simp

lemma cycle_reject:
  assumes "d \<noteq> maxd" "OnStack s a \<or> OnStack s b" "\<not> StackTopIsPhi G s"
  shows "BuildTreeRec G maxd [a, b] d s = Some (None, s)"
  using assms by (subst BuildTreeRec.simps) auto

lemma distinct_operator:
  assumes "OpParameter_int32 (op_of G n1) = OpParameter_int32 (op_of G n0) + 1"
  shows "node_op G n1 \<noteq> node_op G n0"
proof
  assume "node_op G n1 = node_op G n0"
  then have "op_of G n1 = op_of G n0" by (simp add: op_of_def)
  with assms have "OpParameter_int32 (op_of G n0) = OpParameter_int32 (op_of G n0) + 1" by simp
  then show False by simp
qed

lemma not_CanBePacked_result:
  assumes "\<not> CanBePacked G g"
  shows "BuildTreeRec G maxd g d s = Some (None, s) \<or>
         BuildTreeRec G maxd g d s = Some (None, PushStack g s)"
  using assms by (subst (1 2) BuildTreeRec.simps) auto

lemma ExtractF128_consecutive:
  assumes "OpParameter_int32 (op_of G n1) = OpParameter_int32 (op_of G n0) + 1"
  shows "\<not> CanBePacked G [n0, n1] \<and>
         (BuildTreeRec G maxd [n0, n1] d s = Some (None, s) \<or>
          BuildTreeRec G maxd [n0, n1] d s = Some (None, PushStack [n0, n1] s))"
proof -
  from distinct_operator [OF assms] have "\<not> CanBePacked G [n0, n1]"
    by (simp add: CanBePacked_def AllSameOperator_def)
  with not_CanBePacked_result show ?thesis by blast
qed

lemma fold_insert_set: "fold insert xs S = S \<union> set xs"
  by (induction xs arbitrary: S) auto

lemma fold_erase_set: "fold (\<lambda>n S. S - {n}) xs S = S - set xs"
  by (induction xs arbitrary: S) auto

lemma PushStack_fields [simp]:
  "on_stack (PushStack g s) = on_stack s \<union> set g"
  "stack (PushStack g s) = g # stack s"
  "node_to_packnode (PushStack g s) = node_to_packnode s"
  "pack_at (PushStack g s) = pack_at s"
  "zone_next (PushStack g s) = zone_next s"
  by (simp_all add: PushStack_def fold_insert_set)

lemma PopStack_fields [simp]:
  "stack (PopStack s) = tl (stack s)"
  "on_stack (PopStack s) = (case stack s of [] \<Rightarrow> on_stack s | g # rest \<Rightarrow> on_stack s - set g)"
  "node_to_packnode (PopStack s) = node_to_packnode s"
  "pack_at (PopStack s) = pack_at s"
  "zone_next (PopStack s) = zone_next s"
  by (simp_all add: PopStack_def fold_erase_set split: list.splits)

lemma fold_register:
  "fold (\<lambda>n m. m(n \<mapsto> p)) g m x = (if x \<in> set g then Some p else m x)"
  by (induction g arbitrary: m) auto

lemma NewPackNode_fields [simp]:
  "fst (NewPackNode g s) = zone_next s"
  "on_stack (snd (NewPackNode g s)) = on_stack s"
  "stack (snd (NewPackNode g s)) = stack s"
  "zone_next (snd (NewPackNode g s)) = Suc (zone_next s)"
  "node_to_packnode (snd (NewPackNode g s)) n =
     (if n \<in> set g then Some (zone_next s) else node_to_packnode s n)"
  "nodes (pack_at (snd (NewPackNode g s)) p) = (if p = zone_next s then g else nodes (pack_at s p))"
  by (simp_all add: NewPackNode_def Let_def fold_register)

lemma SetOperand_fields [simp]:
  "on_stack (SetOperand p i c s) = on_stack s"
  "stack (SetOperand p i c s) = stack s"
  "zone_next (SetOperand p i c s) = zone_next s"
  "node_to_packnode (SetOperand p i c s) = node_to_packnode s"
  "nodes (pack_at (SetOperand p i c s) q) = nodes (pack_at s q)"
  by (simp_all add: SetOperand_def)

lemma GetPackNode_PushStack [simp]: "GetPackNode (PushStack g s) n = GetPackNode s n"
  by (simp add: GetPackNode_def)

lemma first_registered_PushStack [simp]:
  "first_registered (PushStack g s) ns = first_registered s ns"
  by (induction ns) (auto split: option.splits)

lemma first_registered_None: "first_registered s ns = None \<longleftrightarrow> (\<forall>n \<in> set ns. node_to_packnode s n = None)"
  by (induction ns) (auto simp: GetPackNode_def split: option.splits)

lemma Load_group:
  assumes "opcode G n0 = kLoad" "node_to_packnode s n0 = None" "node_to_packnode s n1 = None"
  shows "BuildTreeRec G maxd [n0, n1] d s = Some (None, s) \<or>
         BuildTreeRec G maxd [n0, n1] d s = Some (None, PushStack [n0, n1] s)"
proof -
  from assms have "first_registered s [n0, n1] = None" by (simp add: GetPackNode_def)
  with assms(1) show ?thesis
    by (subst (1 2) BuildTreeRec.simps) (auto simp del: first_registered.simps)
qed

lemma sorted_pair:
  "sorted_node_group G [a, b] =
     (if sint (GetMemoryOffsetValue G a) \<le> sint (GetMemoryOffsetValue G b) then [a, b] else [b, a])"
  by (simp add: sorted_node_group_def)

lemma ProtectedLoad_leaf:
  assumes "d \<noteq> maxd" "\<not> (AllOnStack s [n0, n1] \<and> \<not> StackTopIsPhi G s)"
    "CanBePacked G [n0, n1]" "first_registered s [n0, n1] = None"
    "opcode G n0 = kProtectedLoad"
  shows "BuildTreeRec G maxd [n0, n1] d s =
     (if AllSameAddress G [n0, n1] \<and> representation (op_of G n0) = kSimd128 \<and>
         IsContinuousAccess G (sorted_node_group G [n0, n1])
      then (case IsSideEffectFreeLoad G (PushStack [n0, n1] s) [n0, n1] of
              None \<Rightarrow> None
            | Some free \<Rightarrow>
                if free then Some (Some (zone_next s),
                                   PopStack (snd (NewPackNode [n0, n1] (PushStack [n0, n1] s))))
                else Some (None, PushStack [n0, n1] s))
      else Some (None, PushStack [n0, n1] s))"
  using assms
  by (subst BuildTreeRec.simps)
     (auto simp del: first_registered.simps AllOnStack.simps split: option.splits)


lemma sdiff16:
  fixes x y :: "64 word"
  assumes "sint x \<le> sint y"
  shows "(y - x = 16) \<longleftrightarrow> (sint y - sint x = 16)"
proof
  assume "sint y - sint x = 16"
  then have "sint y = sint x + 16" by simp
  then have "word_of_int (sint y) = (word_of_int (sint x + 16) :: 64 word)" by simp
  then have "y = x + 16" by simp
  then show "y - x = 16" by simp
next
  assume "y - x = 16"
  then have y: "y = x + 16" by (simp add: algebra_simps)
  have st: "sint (x + 16) = signed_take_bit 63 (sint x + 16)"
    by (simp add: sint_word_ariths)
  have lo: "- (2 ^ 63) \<le> sint x"
    using sint_range_size [of x] by (simp add: word_size)
  show "sint y - sint x = 16"
  proof (cases "sint x + 16 < 2 ^ 63")
    case True
    with lo have "signed_take_bit 63 (sint x + 16) = sint x + 16"
      by (simp add: signed_take_bit_int_eq_self_iff)
    with st y show ?thesis by simp
  next
    case False
    then have "2 ^ 63 \<le> sint x + 16" by simp
    then have "signed_take_bit 63 (sint x + 16) \<le> sint x + 16 - 2 ^ Suc 63"
      by (rule signed_take_bit_int_less_eq)
    with st y have "sint y < sint x" by simp
    with assms show ?thesis by simp
  qed
qed

lemma contiguous_sorted_pair:
  "IsContinuousAccess G (sorted_node_group G [a, b]) \<longleftrightarrow>
   \<bar>sint (GetMemoryOffsetValue G b) - sint (GetMemoryOffsetValue G a)\<bar> = 16"
proof (cases "sint (GetMemoryOffsetValue G a) \<le> sint (GetMemoryOffsetValue G b)")
  case True
  then show ?thesis
    using sdiff16 [of "GetMemoryOffsetValue G a" "GetMemoryOffsetValue G b"]
    by (simp add: sorted_pair kSimd128Size_def Let_def)
next
  case False
  then have "sint (GetMemoryOffsetValue G b) \<le> sint (GetMemoryOffsetValue G a)" by simp
  with False show ?thesis
    using sdiff16 [of "GetMemoryOffsetValue G b" "GetMemoryOffsetValue G a"]
    by (simp add: sorted_pair kSimd128Size_def Let_def)
qed

lemma AllSameAddress_pair:
  "AllSameAddress G [a, b] \<longleftrightarrow> GetNodeAddress G b = GetNodeAddress G a"
  by (simp add: AllSameAddress_def)

text \<open>
  C5, as the code has it. When the checks before the dispatch let a group of two
  \<open>ProtectedLoad\<close> nodes through (the depth is below the cap, the cycle check passes,
  \<open>CanBePacked\<close> holds and neither node is registered to a pack), \<open>BuildTreeRec\<close>
  creates a leaf pack of the group iff the two nodes have the same address node, the
  representation is \<open>kSimd128\<close>, the offsets are exactly 16 apart and
  \<open>IsSideEffectFreeLoad\<close> returns true; when one of the four fails, it returns no pack.
\<close>

theorem ProtectedLoad_leaf_pack:
  assumes "recursion_depth \<noteq> maxd"
    and "\<not> (AllOnStack s [n0, n1] \<and> \<not> StackTopIsPhi G s)"
    and "CanBePacked G [n0, n1]"
    and "first_registered s [n0, n1] = None"
    and "opcode G n0 = kProtectedLoad"
  shows "((\<exists>s'. BuildTreeRec G maxd [n0, n1] recursion_depth s = Some (Some (zone_next s), s') \<and>
               nodes (pack_at s' (zone_next s)) = [n0, n1] \<and>
               operands (pack_at s' (zone_next s)) = Map.empty \<and>
               zone_next s' = Suc (zone_next s))
          \<longleftrightarrow>
          (GetNodeAddress G n1 = GetNodeAddress G n0 \<and>
           representation (op_of G n0) = kSimd128 \<and>
           \<bar>sint (GetMemoryOffsetValue G n1) - sint (GetMemoryOffsetValue G n0)\<bar> = 16 \<and>
           IsSideEffectFreeLoad G (PushStack [n0, n1] s) [n0, n1] = Some True)) \<and>
         (GetNodeAddress G n1 \<noteq> GetNodeAddress G n0 \<or>
          representation (op_of G n0) \<noteq> kSimd128 \<or>
          \<bar>sint (GetMemoryOffsetValue G n1) - sint (GetMemoryOffsetValue G n0)\<bar> \<noteq> 16 \<or>
          IsSideEffectFreeLoad G (PushStack [n0, n1] s) [n0, n1] = Some False
          \<longrightarrow> BuildTreeRec G maxd [n0, n1] recursion_depth s = Some (None, PushStack [n0, n1] s))"
  unfolding ProtectedLoad_leaf [OF assms] contiguous_sorted_pair AllSameAddress_pair
  by (auto simp: NewPackNode_def Let_def split: option.splits)

lemma IsSideEffectFreeLoad_loop_terminates:
  assumes fin: "finite N"
    and closed: "\<And>n i. n \<in> N \<Longrightarrow> i < FirstControlIndex G n \<Longrightarrow> InputAt G n i \<in> N"
    and sub: "set to_visit \<subseteq> N"
  shows "\<exists>b. IsSideEffectFreeLoad_loop G s g to_visit visited = Some b"
proof -
  define R where "R = inv_image (less_than <*lex*> less_than)
      (\<lambda>x :: node list \<times> node set. (card (N - snd x), length (fst x)))"
  have "wf R" unfolding R_def by (intro wf_inv_image wf_lex_prod wf_less_than)
  then show ?thesis using sub
  proof (induction "(to_visit, visited)" arbitrary: to_visit visited rule: wf_induct_rule)
    case less
    show ?case
    proof (cases to_visit)
      case Nil
      then show ?thesis by (subst IsSideEffectFreeLoad_loop.simps) auto
    next
      case (Cons input rest)
      with less.prems have inN: "input \<in> N" and restN: "set rest \<subseteq> N" by auto
      show ?thesis
      proof (cases "input \<in> visited")
        case True
        have "((rest, visited), (to_visit, visited)) \<in> R"
          by (simp add: R_def Cons)
        from less.hyps [OF this restN] True Cons show ?thesis
          by (subst IsSideEffectFreeLoad_loop.simps) auto
      next
        case False
        have eq: "N - insert input visited = (N - visited) - {input}" by auto
        have "input \<in> N - visited" using inN False by simp
        moreover have "finite (N - visited)" using fin by simp
        ultimately have "card ((N - visited) - {input}) < card (N - visited)"
          by (rule card_Diff1_less [rotated])
        with eq have c: "card (N - insert input visited) < card (N - visited)" by simp
        let ?new = "rev (map (InputAt G input) [0..<FirstControlIndex G input]) @ rest"
        have newN: "set ?new \<subseteq> N" using closed [OF inN] restN by auto
        have "((?new, insert input visited), (to_visit, visited)) \<in> R"
          "((rest, insert input visited), (to_visit, visited)) \<in> R"
          using c by (simp_all add: R_def)
        from less.hyps [OF this(1) newN] less.hyps [OF this(2) restN] False Cons show ?thesis
          by (subst IsSideEffectFreeLoad_loop.simps) auto
      qed
    qed
  qed
qed

text \<open>
  C7. On a finite graph (a finite set of nodes that holds the group and, with a node, its
  inputs before the first control input), \<open>IsSideEffectFreeLoad\<close> returns, whatever cycles
  the graph has: a node that is not yet visited is added to the visited set, which stays
  within the finite set, and a visited node is dropped from the work list.
\<close>

theorem IsSideEffectFreeLoad_terminates:
  assumes "finite N"
    and "\<forall>n \<in> N. \<forall>i < FirstControlIndex G n. InputAt G n i \<in> N"
    and "set node_group \<subseteq> N"
  shows "\<exists>b. IsSideEffectFreeLoad G s node_group = Some b"
proof -
  have "set (rev (initial_inputs G node_group)) \<subseteq> N"
    using assms(2,3) by (auto simp: initial_inputs_def)
  with assms(1,2) show ?thesis
    unfolding IsSideEffectFreeLoad_def
    by (intro IsSideEffectFreeLoad_loop_terminates [of N]) auto
qed




section \<open>Induction on the recursion depth\<close>

lemma BuildTreeRec_at_cap: "BuildTreeRec G maxd g maxd s = Some (None, s)"
  by (subst BuildTreeRec.simps) simp

lemma BuildTreeRec_cycle:
  "AllOnStack s g \<Longrightarrow> \<not> StackTopIsPhi G s \<Longrightarrow> BuildTreeRec G maxd g d s = Some (None, s)"
  by (subst BuildTreeRec.simps) simp

lemma BuildTreeRec_not_packed:
  "d \<noteq> maxd \<Longrightarrow> \<not> (AllOnStack s g \<and> \<not> StackTopIsPhi G s) \<Longrightarrow> \<not> CanBePacked G g \<Longrightarrow>
   BuildTreeRec G maxd g d s = Some (None, PushStack g s)"
  by (subst BuildTreeRec.simps) auto

lemma BuildTreeRec_registered:
  "d \<noteq> maxd \<Longrightarrow> \<not> (AllOnStack s g \<and> \<not> StackTopIsPhi G s) \<Longrightarrow> CanBePacked G g \<Longrightarrow>
   first_registered s g = Some p \<Longrightarrow>
   BuildTreeRec G maxd g d s =
     (if IsSame (pack_at s p) g then Some (Some p, PopStack (PushStack g s))
      else Some (None, PushStack g s))"
  by (subst BuildTreeRec.simps) auto

lemma BuildTreeRec_dispatch:
  assumes "d \<noteq> maxd" "\<not> (AllOnStack s g \<and> \<not> StackTopIsPhi G s)" "CanBePacked G g"
    "first_registered s g = None" "BuildTreeRec G maxd g d s = Some (r, s')"
  shows "(r = None \<and> s' = PushStack g s) \<or>
         (r = Some (zone_next s) \<and> opcode G (g ! 0) \<noteq> kLoad \<and>
            s' = PopStack (snd (NewPackNode g (PushStack g s)))) \<or>
         (opcode G (g ! 0) \<noteq> kLoad \<and>
            (\<exists>start count s2.
               NewPackNodeAndRecurs G maxd g start count d (PushStack g s) = Some (r, s2) \<and>
               s' = PopStack s2))"
proof (cases "opcode G (g ! 0)")
  case kExtractF128
  with assms show ?thesis
    by (subst (asm) BuildTreeRec.simps) (simp split: if_splits)
next
  case kProtectedLoad
  with assms show ?thesis
    by (subst (asm) BuildTreeRec.simps) (simp split: if_splits option.splits)
next
  case kLoadTransform
  with assms show ?thesis
    by (subst (asm) BuildTreeRec.simps) (simp split: if_splits option.splits)
next
  case kPhi
  with assms show ?thesis
    by (subst (asm) BuildTreeRec.simps) (fastforce split: if_splits option.splits)
next
  case kLoopExitValue
  with assms show ?thesis
    by (subst (asm) BuildTreeRec.simps) (fastforce split: if_splits option.splits)
next
  case kF32x4Add
  with assms show ?thesis
    by (subst (asm) BuildTreeRec.simps) (fastforce split: if_splits option.splits)
next
  case kF32x4Mul
  with assms show ?thesis
    by (subst (asm) BuildTreeRec.simps) (fastforce split: if_splits option.splits)
next
  case kStore
  with assms show ?thesis
    by (subst (asm) BuildTreeRec.simps) (fastforce split: if_splits option.splits)
next
  case kProtectedStore
  with assms show ?thesis
    by (subst (asm) BuildTreeRec.simps) (fastforce split: if_splits option.splits)
qed (use assms in \<open>subst (asm) BuildTreeRec.simps, simp\<close>)+


lemma BuildTreeRec_result:
  assumes "BuildTreeRec G maxd g d s = Some (r, s')"
  shows "(r = None \<and> (s' = s \<or> s' = PushStack g s)) \<or>
         (\<exists>p. r = Some p \<and> first_registered s g = Some p \<and> IsSame (pack_at s p) g \<and>
              s' = PopStack (PushStack g s)) \<or>
         (d \<noteq> maxd \<and> CanBePacked G g \<and> first_registered s g = None \<and>
          opcode G (g ! 0) \<noteq> kLoad \<and>
          ((r = Some (zone_next s) \<and> s' = PopStack (snd (NewPackNode g (PushStack g s)))) \<or>
           (\<exists>start count s2.
               NewPackNodeAndRecurs G maxd g start count d (PushStack g s) = Some (r, s2) \<and>
               s' = PopStack s2)))"
proof (cases "d = maxd \<or> (AllOnStack s g \<and> \<not> StackTopIsPhi G s)")
  case True
  with assms show ?thesis
    using BuildTreeRec_at_cap [of G maxd g s] BuildTreeRec_cycle [of s g G maxd d] by auto
next
  case pre: False
  show ?thesis
  proof (cases "CanBePacked G g")
    case False
    with pre assms BuildTreeRec_not_packed [of d maxd s g G] show ?thesis by auto
  next
    case cbp: True
    show ?thesis
    proof (cases "first_registered s g")
      case (Some p)
      with pre cbp assms BuildTreeRec_registered [of d maxd s g G p] show ?thesis
        by (auto split: if_splits)
    next
      case None
      with pre cbp assms BuildTreeRec_dispatch [of d maxd s g G r s'] show ?thesis
        by auto
    qed
  qed
qed

lemma depth_induct [case_names step]:
  fixes d maxd :: "32 word"
  assumes "\<And>d x. (\<And>y. d \<noteq> maxd \<Longrightarrow> P (d + 1) y) \<Longrightarrow> P d x"
  shows "P d x"
proof (induction "unat (maxd - d)" arbitrary: d x rule: less_induct)
  case less
  show ?case
  proof (rule assms)
    fix y
    assume ne: "d \<noteq> maxd"
    then have "maxd - d \<noteq> 0" by simp
    then have pos: "0 < unat (maxd - d)" by (simp add: unat_gt_0)
    have e: "maxd - (d + 1) = maxd - d - 1" by simp
    have u: "unat (maxd - d - 1) = unat (maxd - d) - 1"
      using \<open>maxd - d \<noteq> 0\<close> by (rule unat_minus_one)
    have "unat (maxd - (d + 1)) = unat (maxd - d) - 1"
      unfolding e by (rule u)
    with pos have "unat (maxd - (d + 1)) < unat (maxd - d)" by arith
    then show "P (d + 1) y" by (rule less.hyps)
  qed
qed

lemma NewPackNodeAndRecurs_unfold:
  "NewPackNodeAndRecurs G maxd g start count d s =
     NewPackNodeAndRecurs_loop G maxd g start (start + count) d (zone_next s)
       (snd (NewPackNode g s))"
  by (simp add: NewPackNodeAndRecurs.simps)

lemma loop_success_stack:
  assumes H: "\<And>g s p s'. BuildTreeRec G maxd g (d + 1) s = Some (Some p, s') \<Longrightarrow>
                 stack s' = stack s \<and> on_stack s' \<subseteq> on_stack s"
  shows "NewPackNodeAndRecurs_loop G maxd g i e d pn s = Some (Some p, s') \<Longrightarrow>
         stack s' = stack s \<and> on_stack s' \<subseteq> on_stack s"
proof (induction "e - i" arbitrary: i s)
  case 0
  then show ?case
    by (subst (asm) NewPackNodeAndRecurs_loop.simps) simp
next
  case (Suc k)
  then have lt: "i < e" by simp
  from Suc.prems lt obtain child s1 where
    c: "BuildTreeRec G maxd (map (\<lambda>n. GetValueInput G n i) g) (d + 1) s = Some (Some child, s1)"
    and l: "NewPackNodeAndRecurs_loop G maxd g (Suc i) e d pn (SetOperand pn i child s1) = Some (Some p, s')"
    by (subst (asm) NewPackNodeAndRecurs_loop.simps) (auto split: option.splits)
  from Suc.hyps(2) have "k = e - Suc i" by simp
  from Suc.hyps(1) [OF this l] H [OF c] show ?case by auto
qed

lemma BuildTreeRec_success_stack:
  "BuildTreeRec G maxd g d s = Some (Some p, s') \<Longrightarrow>
   stack s' = stack s \<and> on_stack s' \<subseteq> on_stack s"
proof (induction d "(g, s, p, s')" arbitrary: g s p s' rule: depth_induct [where maxd = maxd])
  case (step d)
  from BuildTreeRec_result [OF step.prems]
  consider (diamond) "s' = PopStack (PushStack g s)"
    | (leaf) "s' = PopStack (snd (NewPackNode g (PushStack g s)))"
    | (recurs) start count s2 where "d \<noteq> maxd"
        "NewPackNodeAndRecurs G maxd g start count d (PushStack g s) = Some (Some p, s2)"
        "s' = PopStack s2"
    by auto
  then show ?case
  proof cases
    case diamond
    then show ?thesis by auto
  next
    case leaf
    then show ?thesis by auto
  next
    case recurs
    have "stack s2 = stack (snd (NewPackNode g (PushStack g s))) \<and>
          on_stack s2 \<subseteq> on_stack (snd (NewPackNode g (PushStack g s)))"
      using recurs(2) unfolding NewPackNodeAndRecurs_unfold
      by (rule loop_success_stack [rotated]) (rule step.hyps [OF recurs(1)])
    with recurs(3) show ?thesis by auto
  qed
qed


lemma loop_invariant:
  assumes H: "\<And>g s r s'. Inv s \<Longrightarrow> BuildTreeRec G maxd g (d + 1) s = Some (r, s') \<Longrightarrow> Inv s'"
    and setop: "\<And>p i c s. Inv s \<Longrightarrow> Inv (SetOperand p i c s)"
  shows "Inv s \<Longrightarrow> NewPackNodeAndRecurs_loop G maxd g i e d pn s = Some (r, s') \<Longrightarrow> Inv s'"
proof (induction "e - i" arbitrary: i s)
  case 0
  then show ?case
    by (subst (asm) NewPackNodeAndRecurs_loop.simps) simp
next
  case (Suc k)
  then have lt: "i < e" by simp
  from Suc.prems(2) lt obtain c s1 where
    c: "BuildTreeRec G maxd (map (\<lambda>n. GetValueInput G n i) g) (d + 1) s = Some (c, s1)"
    and l: "(c = None \<and> r = None \<and> s' = s1) \<or>
            (\<exists>child. c = Some child \<and>
               NewPackNodeAndRecurs_loop G maxd g (Suc i) e d pn (SetOperand pn i child s1) = Some (r, s'))"
    by (subst (asm) NewPackNodeAndRecurs_loop.simps) (auto split: option.splits)
  from H [OF Suc.prems(1) c] have i1: "Inv s1" .
  from Suc.hyps(2) have k: "k = e - Suc i" by simp
  from l show ?case
  proof
    assume "c = None \<and> r = None \<and> s' = s1"
    with i1 show ?thesis by simp
  next
    assume "\<exists>child. c = Some child \<and>
        NewPackNodeAndRecurs_loop G maxd g (Suc i) e d pn (SetOperand pn i child s1) = Some (r, s')"
    then obtain child where
      "NewPackNodeAndRecurs_loop G maxd g (Suc i) e d pn (SetOperand pn i child s1) = Some (r, s')"
      by blast
    from Suc.hyps(1) [OF k setop [OF i1] this] show ?thesis .
  qed
qed

lemma BuildTreeRec_invariant:
  assumes push: "\<And>g s. Inv s \<Longrightarrow> Inv (PushStack g s)"
    and pop: "\<And>s. Inv s \<Longrightarrow> Inv (PopStack s)"
    and setop: "\<And>p i c s. Inv s \<Longrightarrow> Inv (SetOperand p i c s)"
    and new: "\<And>g s. Inv s \<Longrightarrow> CanBePacked G g \<Longrightarrow> first_registered s g = None \<Longrightarrow>
                 opcode G (g ! 0) \<noteq> kLoad \<Longrightarrow> Inv (snd (NewPackNode g s))"
  shows "Inv s \<Longrightarrow> BuildTreeRec G maxd g d s = Some (r, s') \<Longrightarrow> Inv s'"
proof (induction d "(g, s, r, s')" arbitrary: g s r s' rule: depth_induct [where maxd = maxd])
  case (step d)
  note inv = step.prems(1)
  from BuildTreeRec_result [OF step.prems(2)]
  consider (same) "s' = s" | (pushed) "s' = PushStack g s"
    | (diamond) "s' = PopStack (PushStack g s)"
    | (leaf) "CanBePacked G g" "first_registered s g = None" "opcode G (g ! 0) \<noteq> kLoad"
        "s' = PopStack (snd (NewPackNode g (PushStack g s)))"
    | (recurs) start count s2 where "d \<noteq> maxd"
        "CanBePacked G g" "first_registered s g = None" "opcode G (g ! 0) \<noteq> kLoad"
        "NewPackNodeAndRecurs G maxd g start count d (PushStack g s) = Some (r, s2)"
        "s' = PopStack s2"
    by auto
  then show ?case
  proof cases
    case same
    with inv show ?thesis by simp
  next
    case pushed
    with push [OF inv] show ?thesis by simp
  next
    case diamond
    with pop [OF push [OF inv]] show ?thesis by simp
  next
    case leaf
    from new [OF push [OF inv, of g] leaf(1) _ leaf(3)] leaf(2)
    have "Inv (snd (NewPackNode g (PushStack g s)))" by simp
    with pop leaf(4) show ?thesis by simp
  next
    case recurs
    from new [OF push [OF inv, of g] recurs(2) _ recurs(4)] recurs(3)
    have n: "Inv (snd (NewPackNode g (PushStack g s)))" by simp
    have "Inv s2"
      using n recurs(5) unfolding NewPackNodeAndRecurs_unfold
      by (rule loop_invariant [rotated 2]) (rule step.hyps [OF recurs(1)], assumption+, rule setop)
    with pop recurs(6) show ?thesis by simp
  qed
qed


section \<open>Invariants of the registry\<close>

lemma CanBePacked_same_opcode:
  assumes "CanBePacked G g" "n \<in> set g"
  shows "opcode G n = opcode G (g ! 0)"
proof (cases g)
  case Nil
  with assms show ?thesis by simp
next
  case (Cons a as)
  from assms(1) have "AllSameOperator G g"
    unfolding CanBePacked_def by (simp split: if_splits)
  with Cons have "\<forall>m \<in> set as. node_op G m = node_op G a"
    by (simp add: AllSameOperator_def list_all_iff)
  with assms(2) Cons have "node_op G n = node_op G a" by auto
  with Cons show ?thesis by (simp add: opcode_def op_of_def)
qed

lemma no_load_registered_NewPackNode:
  assumes "no_load_registered G s" "CanBePacked G g" "opcode G (g ! 0) \<noteq> kLoad"
  shows "no_load_registered G (snd (NewPackNode g s))"
  unfolding no_load_registered_def
proof (intro allI impI)
  fix n assume l: "opcode G n = kLoad"
  with CanBePacked_same_opcode [OF assms(2), of n] assms(3) have "n \<notin> set g" by auto
  with assms(1) l show "node_to_packnode (snd (NewPackNode g s)) n = None"
    by (simp add: no_load_registered_def)
qed

lemma no_load_registered_preserved:
  assumes "no_load_registered G s" "BuildTreeRec G maxd g d s = Some (r, s')"
  shows "no_load_registered G s'"
proof (rule BuildTreeRec_invariant [where Inv = "no_load_registered G" and G = G, OF _ _ _ _ assms])
  fix g s assume "no_load_registered G s"
  then show "no_load_registered G (PushStack g s)" by (simp add: no_load_registered_def)
next
  fix s assume "no_load_registered G s"
  then show "no_load_registered G (PopStack s)" by (simp add: no_load_registered_def)
next
  fix p i c s assume "no_load_registered G s"
  then show "no_load_registered G (SetOperand p i c s)" by (simp add: no_load_registered_def)
next
  fix g s
  assume "no_load_registered G s" "CanBePacked G g" "opcode G (g ! 0) \<noteq> kLoad"
  then show "no_load_registered G (snd (NewPackNode g s))"
    by (rule no_load_registered_NewPackNode)
qed




lemma registry_consistent_frame [simp]:
  "registry_consistent base (PushStack g s) = registry_consistent base s"
  "registry_consistent base (PopStack s) = registry_consistent base s"
  "registry_consistent base (SetOperand p i c s) = registry_consistent base s"
  by (simp_all add: registry_consistent_def)


lemma registry_consistent_NewPackNode:
  assumes rc: "registry_consistent base s" and fr: "first_registered s g = None"
  shows "registry_consistent base (snd (NewPackNode g s))"
proof -
  from fr have un: "\<And>n. n \<in> set g \<Longrightarrow> node_to_packnode s n = None"
    by (simp add: first_registered_None)
  from rc have b: "base \<le> zone_next s"
    and fw: "\<And>p n. base \<le> p \<Longrightarrow> p < zone_next s \<Longrightarrow> n \<in> set (nodes (pack_at s p)) \<Longrightarrow>
                node_to_packnode s n = Some p"
    and bw: "\<And>n p. node_to_packnode s n = Some p \<Longrightarrow>
                base \<le> p \<and> p < zone_next s \<and> n \<in> set (nodes (pack_at s p))"
    unfolding registry_consistent_def by blast+
  have 1: "base \<le> zone_next (snd (NewPackNode g s))" using b by simp
  have 2: "node_to_packnode (snd (NewPackNode g s)) n = Some p"
    if "base \<le> p" "p < zone_next (snd (NewPackNode g s))"
       "n \<in> set (nodes (pack_at (snd (NewPackNode g s)) p))" for p n
  proof (cases "p = zone_next s")
    case True
    with that show ?thesis by simp
  next
    case False
    with that have "p < zone_next s" "n \<in> set (nodes (pack_at s p))" by simp_all
    with that(1) have r: "node_to_packnode s n = Some p" by (intro fw)
    have "n \<notin> set g"
    proof
      assume "n \<in> set g"
      from un [OF this] r show False by simp
    qed
    with r show ?thesis by simp
  qed
  have 3: "base \<le> p \<and> p < zone_next (snd (NewPackNode g s)) \<and>
           n \<in> set (nodes (pack_at (snd (NewPackNode g s)) p))"
    if "node_to_packnode (snd (NewPackNode g s)) n = Some p" for n p
  proof (cases "n \<in> set g")
    case True
    with that have "p = zone_next s" by simp
    with True b show ?thesis by simp
  next
    case False
    with that have "node_to_packnode s n = Some p" by simp
    from bw [OF this] show ?thesis by simp
  qed
  from 1 2 3 show ?thesis unfolding registry_consistent_def by blast
qed

lemma registry_consistent_preserved:
  assumes "registry_consistent base s" "BuildTreeRec G maxd g d s = Some (r, s')"
  shows "registry_consistent base s'"
proof (rule BuildTreeRec_invariant [where Inv = "registry_consistent base" and G = G, OF _ _ _ _ assms])
  fix g s assume "registry_consistent base s"
  then show "registry_consistent base (PushStack g s)" by simp
next
  fix s assume "registry_consistent base s"
  then show "registry_consistent base (PopStack s)" by simp
next
  fix p i c s assume "registry_consistent base s"
  then show "registry_consistent base (SetOperand p i c s)" by simp
next
  fix g s
  assume "registry_consistent base s" "first_registered s g = None"
  then show "registry_consistent base (snd (NewPackNode g s))"
    by (rule registry_consistent_NewPackNode)
qed

lemma registered_first:
  assumes rc: "registry_consistent base s" and n: "n \<in> set g"
    and r: "node_to_packnode s n = Some p"
  shows "\<exists>q. first_registered s g = Some q \<and> (IsSame (pack_at s p) g \<longrightarrow> q = p) \<and>
             (IsSame (pack_at s q) g \<longrightarrow> q = p)"
proof -
  from n r have "first_registered s g \<noteq> None" by (auto simp: first_registered_None)
  then obtain q where q: "first_registered s g = Some q" by blast
  have mem: "\<exists>m \<in> set g. node_to_packnode s m = Some q"
    using q by (induction g) (auto simp: GetPackNode_def split: option.splits)
  from rc have fw: "\<And>p n. base \<le> p \<Longrightarrow> p < zone_next s \<Longrightarrow> n \<in> set (nodes (pack_at s p)) \<Longrightarrow>
                node_to_packnode s n = Some p"
    and bw: "\<And>n p. node_to_packnode s n = Some p \<Longrightarrow>
                base \<le> p \<and> p < zone_next s \<and> n \<in> set (nodes (pack_at s p))"
    unfolding registry_consistent_def by blast+
  from mem obtain m where m: "m \<in> set g" "node_to_packnode s m = Some q" by blast
  have a: "q = p" if "IsSame (pack_at s p) g"
  proof -
    from that m(1) have "m \<in> set (nodes (pack_at s p))" by (simp add: IsSame_def)
    moreover from bw [OF r] have "base \<le> p" "p < zone_next s" by simp_all
    ultimately have "node_to_packnode s m = Some p" by (intro fw)
    with m(2) show ?thesis by simp
  qed
  have b: "q = p" if "IsSame (pack_at s q) g"
  proof -
    from that n have "n \<in> set (nodes (pack_at s q))" by (simp add: IsSame_def)
    moreover from bw [OF m(2)] have "base \<le> q" "q < zone_next s" by simp_all
    ultimately have "node_to_packnode s n = Some q" by (intro fw)
    with r show ?thesis by simp
  qed
  from q a b show ?thesis by blast
qed

lemma mismatch_no_pack:
  assumes "first_registered s g = Some q" "\<not> IsSame (pack_at s q) g"
  shows "\<exists>s'. BuildTreeRec G maxd g d s = Some (None, s')"
proof (cases "d = maxd \<or> (AllOnStack s g \<and> \<not> StackTopIsPhi G s)")
  case True
  then show ?thesis
    using BuildTreeRec_at_cap [of G maxd g s] BuildTreeRec_cycle [of s g G maxd d] by auto
next
  case pre: False
  show ?thesis
  proof (cases "CanBePacked G g")
    case False
    with pre BuildTreeRec_not_packed [of d maxd s g G] show ?thesis by auto
  next
    case True
    with pre assms BuildTreeRec_registered [of d maxd s g G q] show ?thesis by auto
  qed
qed

lemma registry_consistent_DeleteTree: "registry_consistent (zone_next s) (DeleteTree s)"
  by (simp add: registry_consistent_def DeleteTree_def ClearStack_def)

lemma no_load_registered_DeleteTree: "no_load_registered G (DeleteTree s)"
  by (simp add: no_load_registered_def DeleteTree_def ClearStack_def)

section \<open>Claims about the tree builder on the examples\<close>

lemmas tree_simps = PushStack_def PopStack_def NewPackNode_def SetOperand_def GetPackNode_def
  OnStack_def StackTopIsPhi_def ClearStack_def DeleteTree_def empty_tree_def IsSame_def
  CanBePacked_def AllSameOperator_def AllConstant_def AllSameAddress_def IsSplat_def
  GetNodeAddress_def GetMemoryOffsetValue_def GetConstantValue_def GetValueInput_def
  sorted_node_group_def kSimd128Size_def

lemmas prober_simps = IsSideEffectFreeLoad_def initial_inputs_def IsSideEffectFreeLoad_loop.simps
  upt_rec [of _ "numeral _"]

text \<open>
  C2. The cycle check as the code has it: below the depth cap, a group of which some node
  is on the stack is rejected, unpushed, whenever the top of the stack is not a phi group,
  also when its other node is not on the stack; \<open>AllOnStack\<close> answers true as soon as one
  node of the group is on the stack.
\<close>

theorem cycle_policy_any_on_stack:
  assumes "recursion_depth \<noteq> maxd" and "OnStack s a \<or> OnStack s b" and "\<not> StackTopIsPhi G s"
  shows "AllOnStack s [a, b] \<and> BuildTreeRec G maxd [a, b] recursion_depth s = Some (None, s)"
  using assms cycle_reject [OF assms] by auto

theorem cycle_policy_any_on_stack_witness:
  "OnStack partly_on_stack_state 61 \<and> \<not> OnStack partly_on_stack_state 62 \<and>
   \<not> StackTopIsPhi example_graph partly_on_stack_state \<and>
   AllOnStack partly_on_stack_state [61, 62] \<and>
   BuildTreeRec example_graph 8 [61, 62] 2 partly_on_stack_state = Some (None, partly_on_stack_state) \<and>
   BuildTree example_graph 8 [25, 26] empty_tree =
     Some (None, (PopStack (PopStack partly_on_stack_state))\<lparr>root := None\<rparr>)"
proof -
  have run: "BuildTree example_graph 8 [25, 26] empty_tree =
      Some (None, (PopStack (PopStack partly_on_stack_state))\<lparr>root := None\<rparr>)"
    by (simp add: BuildTree_def BuildTreeRec.simps NewPackNodeAndRecurs.simps
        NewPackNodeAndRecurs_loop.simps tree_simps ex_simps partly_on_stack_state_def)
  have a: "(2 :: 32 word) \<noteq> 8" by simp
  have b: "OnStack partly_on_stack_state 61 \<or> OnStack partly_on_stack_state 62"
    by (simp add: partly_on_stack_state_def OnStack_def)
  have c: "\<not> StackTopIsPhi example_graph partly_on_stack_state"
    by (simp add: partly_on_stack_state_def StackTopIsPhi_def ex_simps)
  have d: "OnStack partly_on_stack_state 61" "\<not> OnStack partly_on_stack_state 62"
    by (simp_all add: partly_on_stack_state_def OnStack_def empty_tree_def)
  from cycle_policy_any_on_stack [OF a b c] c d run show ?thesis by simp
qed

text \<open>
  C3. Two \<open>ExtractF128\<close> nodes whose lane parameters are consecutive have different
  operators, so \<open>CanBePacked\<close> rejects the group and \<open>BuildTreeRec\<close> returns no pack:
  the branch of \<open>BuildTreeRec\<close> for consecutive lanes is never reached.
\<close>

theorem ExtractF128_consecutive_lanes_rejected:
  assumes "OpParameter_int32 (op_of G n1) = OpParameter_int32 (op_of G n0) + 1"
  shows "\<not> CanBePacked G [n0, n1] \<and>
         (BuildTreeRec G maxd [n0, n1] recursion_depth s = Some (None, s) \<or>
          BuildTreeRec G maxd [n0, n1] recursion_depth s = Some (None, PushStack [n0, n1] s))"
  using ExtractF128_consecutive [OF assms] by simp

theorem ExtractF128_consecutive_lanes_rejected_witness:
  "opcode example_graph 41 = kExtractF128 \<and> opcode example_graph 42 = kExtractF128 \<and>
   SameBasicBlock example_graph 41 42 \<and>
   InputAt example_graph 41 0 = InputAt example_graph 42 0 \<and>
   opcode example_graph (InputAt example_graph 41 0) \<noteq> kLoadTransform \<and>
   OpParameter_int32 (op_of example_graph 42) = OpParameter_int32 (op_of example_graph 41) + 1 \<and>
   \<not> CanBePacked example_graph [41, 42] \<and>
   BuildTreeRec example_graph 8 [41, 42] 0 empty_tree = Some (None, PushStack [41, 42] empty_tree)"
proof -
  have p: "OpParameter_int32 (op_of example_graph 42) = OpParameter_int32 (op_of example_graph 41) + 1"
    by (simp add: ex_simps)
  from ExtractF128_consecutive_lanes_rejected [OF p, of 8 0 empty_tree]
  have n: "\<not> CanBePacked example_graph [41, 42]" by simp
  have r: "BuildTreeRec example_graph 8 [41, 42] 0 empty_tree =
      Some (None, PushStack [41, 42] empty_tree)"
    using n by (subst BuildTreeRec.simps) (simp add: OnStack_def empty_tree_def)
  from p n r show ?thesis by (simp add: ex_simps)
qed

theorem ProtectedLoad_leaf_pack_witness:
  "\<exists>s'. BuildTreeRec example_graph 8 [10, 11] 1 (PushStack [20, 21] empty_tree) = Some (Some 0, s')"
proof -
  let ?s = "PushStack [20, 21] empty_tree"
  have z: "zone_next ?s = 0" by (simp add: empty_tree_def)
  have a: "(1 :: 32 word) \<noteq> 8" by simp
  have b: "\<not> (AllOnStack ?s [10, 11] \<and> \<not> StackTopIsPhi example_graph ?s)"
    by (simp add: OnStack_def empty_tree_def)
  have c: "CanBePacked example_graph [10, 11]"
    by (simp add: CanBePacked_def AllSameOperator_def AllConstant_def ex_simps)
  have d: "first_registered ?s [10, 11] = None"
    by (simp add: GetPackNode_def empty_tree_def)
  have e: "opcode example_graph 10 = kProtectedLoad" by (simp add: ex_simps)
  have f: "GetNodeAddress example_graph 11 = GetNodeAddress example_graph 10 \<and>
    representation (op_of example_graph 10) = kSimd128 \<and>
    \<bar>sint (GetMemoryOffsetValue example_graph 11) - sint (GetMemoryOffsetValue example_graph 10)\<bar> = 16"
    by (simp add: GetNodeAddress_def GetMemoryOffsetValue_def GetConstantValue_def ex_simps)
  have g: "IsSideEffectFreeLoad example_graph (PushStack [10, 11] ?s) [10, 11] = Some True"
    by (simp add: prober_simps ex_simps OnStack_def empty_tree_def)
  from ProtectedLoad_leaf_pack [OF a b c d e] f g z show ?thesis by auto
qed

text \<open>
  Without the checks before the dispatch the claim fails: the loads 50 and 51 of
  \<open>example_graph\<close> meet the four conditions, but they are in different basic blocks, and
  \<open>BuildTreeRec\<close> returns no pack.
\<close>

theorem ProtectedLoad_leaf_pack_counterexample:
  "opcode example_graph 50 = kProtectedLoad \<and> opcode example_graph 51 = kProtectedLoad \<and>
   GetNodeAddress example_graph 51 = GetNodeAddress example_graph 50 \<and>
   representation (op_of example_graph 50) = kSimd128 \<and>
   \<bar>sint (GetMemoryOffsetValue example_graph 51) - sint (GetMemoryOffsetValue example_graph 50)\<bar> = 16 \<and>
   IsSideEffectFreeLoad example_graph (PushStack [50, 51] empty_tree) [50, 51] = Some True \<and>
   BuildTreeRec example_graph 8 [50, 51] 0 empty_tree = Some (None, PushStack [50, 51] empty_tree)"
proof -
  have g: "IsSideEffectFreeLoad example_graph (PushStack [50, 51] empty_tree) [50, 51] = Some True"
    by (simp add: prober_simps ex_simps OnStack_def empty_tree_def)
  have r: "BuildTreeRec example_graph 8 [50, 51] 0 empty_tree = Some (None, PushStack [50, 51] empty_tree)"
    by (subst BuildTreeRec.simps) (simp add: CanBePacked_def ex_simps OnStack_def empty_tree_def)
  from g r show ?thesis
    by (simp add: GetNodeAddress_def GetMemoryOffsetValue_def GetConstantValue_def ex_simps)
qed

theorem IsSideEffectFreeLoad_terminates_witness:
  "\<exists>b. IsSideEffectFreeLoad cyclic_graph empty_tree [10, 11] = Some b"
  using IsSideEffectFreeLoad_terminates [of "{1, 2, 10, 11}" cyclic_graph "[10, 11]" empty_tree]
  by (simp add: cyclic_graph_def)

lemma cyclic_value: "IsSideEffectFreeLoad cyclic_graph empty_tree [10, 11] = Some True"
  by (simp add: prober_simps cyclic_graph_def OnStack_def empty_tree_def)


section \<open>The stack, the registry and plain loads\<close>

lemmas builder_simps = BuildTree_def BuildTreeRec.simps NewPackNodeAndRecurs.simps
  NewPackNodeAndRecurs_loop.simps tree_simps ex_simps prober_simps

text \<open>
  C1, as the code has it. When \<open>BuildTree\<close> returns a root pack, the on-stack set and the
  stack are empty: every group pushed during the call has been popped. \<open>BuildTree\<close>
  clears both on entry (\<open>DeleteTree\<close>), which is what removes the groups that a call
  returning no pack leaves behind.
\<close>

theorem BuildTree_success_leaves_stack_empty:
  "(BuildTree G maxd roots s = Some (Some p, s') \<longrightarrow> on_stack s' = {} \<and> stack s' = []) \<and>
   on_stack (DeleteTree s) = {} \<and> stack (DeleteTree s) = []"
proof (intro conjI impI)
  assume a: "BuildTree G maxd roots s = Some (Some p, s')"
  then obtain s1 where r: "BuildTreeRec G maxd roots 0 (DeleteTree s) = Some (Some p, s1)"
    and s': "s' = s1\<lparr>root := Some p\<rparr>"
    by (auto simp: BuildTree_def split: option.splits intro: prod.expand)
  from BuildTreeRec_success_stack [OF r]
  have "stack s1 = [] \<and> on_stack s1 = {}" by (simp add: DeleteTree_def ClearStack_def)
  with s' show "on_stack s' = {}" "stack s' = []" by simp_all
qed (simp_all add: DeleteTree_def ClearStack_def)

theorem BuildTree_success_leaves_stack_empty_witness:
  "\<exists>s'. BuildTree example_graph 8 [20, 21] empty_tree = Some (Some 0, s') \<and>
        on_stack s' = {} \<and> stack s' = []"
proof -
  have "\<exists>s'. BuildTree example_graph 8 [20, 21] empty_tree = Some (Some 0, s')"
    by (simp add: builder_simps)
  then obtain s' where e: "BuildTree example_graph 8 [20, 21] empty_tree = Some (Some 0, s')" ..
  with BuildTree_success_leaves_stack_empty [of example_graph 8 "[20, 21]" empty_tree 0 s']
  show ?thesis by blast
qed

text \<open>
  When \<open>BuildTree\<close> returns no pack the on-stack set need not be empty: on the stores 23
  and 24 of \<open>example_graph\<close>, whose stored values cannot be packed, \<open>BuildTree\<close>
  returns no pack and leaves the root group on the stack.
\<close>

theorem BuildTree_failure_counterexample:
  "BuildTree example_graph 8 [23, 24] empty_tree \<noteq> None \<and>
   fst (the (BuildTree example_graph 8 [23, 24] empty_tree)) = None \<and>
   on_stack (snd (the (BuildTree example_graph 8 [23, 24] empty_tree))) = {23, 24} \<and>
   stack (snd (the (BuildTree example_graph 8 [23, 24] empty_tree))) = [[23, 24]]"
proof -
  have "\<exists>s'. BuildTree example_graph 8 [23, 24] empty_tree = Some (None, s') \<and>
        on_stack s' = {23, 24} \<and> stack s' = [[23, 24]]"
    by (auto simp: builder_simps)
  then obtain s' where e: "BuildTree example_graph 8 [23, 24] empty_tree = Some (None, s')"
    and o: "on_stack s' = {23, 24}" and k: "stack s' = [[23, 24]]" by blast
  show ?thesis unfolding e using o k by simp
qed


lemma registry_consistent_root [simp]:
  "registry_consistent base (s\<lparr>root := x\<rparr>) = registry_consistent base s"
  by (simp add: registry_consistent_def)

text \<open>
  C4, as the code has it. After \<open>BuildTree\<close> the registry and the packs created during
  the call agree: every node of such a pack is registered to that pack and to no other, so
  no node is in two packs; \<open>BuildTreeRec\<close> keeps this. When a node of a group is
  registered to a pack that matches the group element-wise, and the depth cap, the cycle
  check and \<open>CanBePacked\<close> let the group through, \<open>BuildTreeRec\<close> returns that pack
  and allocates nothing. When a node of the group is registered to a pack that does not
  match the group, \<open>BuildTreeRec\<close> returns no pack.
\<close>

theorem registry_and_diamond_merge:
  "(BuildTree G maxd roots s0 = Some (r0, s0') \<longrightarrow> registry_consistent (zone_next s0) s0') \<and>
   (registry_consistent base s \<and> BuildTreeRec G maxd g d s = Some (r, s')
      \<longrightarrow> registry_consistent base s') \<and>
   (registry_consistent base s \<and> n \<in> set g \<and> node_to_packnode s n = Some p \<and>
    IsSame (pack_at s p) g \<and>
    d \<noteq> maxd \<and> \<not> (AllOnStack s g \<and> \<not> StackTopIsPhi G s) \<and> CanBePacked G g
      \<longrightarrow> BuildTreeRec G maxd g d s = Some (Some p, PopStack (PushStack g s)) \<and>
          zone_next (PopStack (PushStack g s)) = zone_next s \<and>
          pack_at (PopStack (PushStack g s)) = pack_at s \<and>
          node_to_packnode (PopStack (PushStack g s)) = node_to_packnode s) \<and>
   (registry_consistent base s \<and> n \<in> set g \<and> node_to_packnode s n = Some p \<and>
    \<not> IsSame (pack_at s p) g
      \<longrightarrow> (\<exists>s'. BuildTreeRec G maxd g d s = Some (None, s')))"
proof (intro conjI impI)
  assume a: "BuildTree G maxd roots s0 = Some (r0, s0')"
  then obtain s1 where r: "BuildTreeRec G maxd roots 0 (DeleteTree s0) = Some (r0, s1)"
    and s': "s0' = s1\<lparr>root := r0\<rparr>"
    by (auto simp: BuildTree_def split: option.splits intro: prod.expand)
  from registry_consistent_preserved [OF registry_consistent_DeleteTree r]
  have "registry_consistent (zone_next s0) s1" .
  then show "registry_consistent (zone_next s0) s0'"
    unfolding s' by simp
next
  assume "registry_consistent base s \<and> BuildTreeRec G maxd g d s = Some (r, s')"
  then have "registry_consistent base s" "BuildTreeRec G maxd g d s = Some (r, s')" by simp_all
  then show "registry_consistent base s'"
    by (rule registry_consistent_preserved)
next
  assume a: "registry_consistent base s \<and> n \<in> set g \<and> node_to_packnode s n = Some p \<and>
    IsSame (pack_at s p) g \<and>
    d \<noteq> maxd \<and> \<not> (AllOnStack s g \<and> \<not> StackTopIsPhi G s) \<and> CanBePacked G g"
  then have rc: "registry_consistent base s" and n: "n \<in> set g"
    and r: "node_to_packnode s n = Some p" and same: "IsSame (pack_at s p) g"
    and pre: "d \<noteq> maxd" "\<not> (AllOnStack s g \<and> \<not> StackTopIsPhi G s)" "CanBePacked G g"
    by blast+
  from registered_first [OF rc n r] same have fr: "first_registered s g = Some p" by blast
  from BuildTreeRec_registered [OF pre fr] same
  show "BuildTreeRec G maxd g d s = Some (Some p, PopStack (PushStack g s))" by simp
  show "zone_next (PopStack (PushStack g s)) = zone_next s"
    "pack_at (PopStack (PushStack g s)) = pack_at s"
    "node_to_packnode (PopStack (PushStack g s)) = node_to_packnode s"
    by simp_all
next
  assume a: "registry_consistent base s \<and> n \<in> set g \<and> node_to_packnode s n = Some p \<and>
    \<not> IsSame (pack_at s p) g"
  then have rc: "registry_consistent base s" and n: "n \<in> set g"
    and r: "node_to_packnode s n = Some p" and diff: "\<not> IsSame (pack_at s p) g"
    by blast+
  from registered_first [OF rc n r] obtain q where
    q: "first_registered s g = Some q" "IsSame (pack_at s q) g \<longrightarrow> q = p" by blast
  with diff have "\<not> IsSame (pack_at s q) g" by blast
  with q(1) show "\<exists>s'. BuildTreeRec G maxd g d s = Some (None, s')"
    by (rule mismatch_no_pack)
qed


theorem registry_and_diamond_merge_witness:
  "BuildTreeRec example_graph 8 [10, 11] 1 empty_tree = Some (Some 0, leaf_packed_state) \<and>
   registry_consistent 0 leaf_packed_state \<and>
   BuildTreeRec example_graph 8 [10, 11] 1 leaf_packed_state =
     Some (Some 0, PopStack (PushStack [10, 11] leaf_packed_state)) \<and>
   zone_next (PopStack (PushStack [10, 11] leaf_packed_state)) = zone_next leaf_packed_state"
proof -
  have first: "BuildTreeRec example_graph 8 [10, 11] 1 empty_tree = Some (Some 0, leaf_packed_state)"
    by (simp add: builder_simps leaf_packed_state_def)
  have e: "registry_consistent 0 empty_tree"
    by (simp add: registry_consistent_def empty_tree_def)
  from registry_and_diamond_merge [of example_graph 8 _ _ _ _ 0 empty_tree "[10, 11]" 1 "Some 0" leaf_packed_state]
    e first
  have rc: "registry_consistent 0 leaf_packed_state" by blast
  have h: "10 \<in> set [10, 11 :: nat]" "node_to_packnode leaf_packed_state 10 = Some 0"
    "IsSame (pack_at leaf_packed_state 0) [10, 11]" "(1 :: 32 word) \<noteq> 8"
    "\<not> (AllOnStack leaf_packed_state [10, 11] \<and> \<not> StackTopIsPhi example_graph leaf_packed_state)"
    "CanBePacked example_graph [10, 11]"
    by (simp_all add: leaf_packed_state_def IsSame_def empty_tree_def OnStack_def
        CanBePacked_def AllSameOperator_def AllConstant_def ex_simps)
  from registry_and_diamond_merge [of example_graph 8 _ _ _ _ 0 leaf_packed_state "[10, 11]" 1 _ _ 10 0] rc h
  have "BuildTreeRec example_graph 8 [10, 11] 1 leaf_packed_state =
     Some (Some 0, PopStack (PushStack [10, 11] leaf_packed_state))" by blast
  with first rc show ?thesis by simp
qed

text \<open>
  A group whose nodes are registered to a matching pack is not always given that pack: in
  \<open>loop_state\<close> the \<open>Phi\<close>s 70 and 71 are registered to pack 1, which matches the
  group, and are met again as operand 0 of the \<open>F32x4Add\<close>s 74 and 75; they are on the
  stack, the top of the stack is not a phi group, and \<open>BuildTreeRec\<close> returns no pack.
  The state is the one \<open>BuildTree\<close> on the stores 27 and 28 is in at that call:
  \<open>BuildTree\<close> ends in it with the three groups popped, and returns no pack.
\<close>

theorem diamond_merge_counterexample:
  "node_to_packnode loop_state 70 = Some 1 \<and> node_to_packnode loop_state 71 = Some 1 \<and>
   IsSame (pack_at loop_state 1) [70, 71] \<and>
   BuildTreeRec example_graph 8 [70, 71] 3 loop_state = Some (None, loop_state) \<and>
   BuildTree example_graph 8 [27, 28] empty_tree =
     Some (None, (PopStack (PopStack (PopStack loop_state)))\<lparr>root := None\<rparr>)"
proof -
  have a: "node_to_packnode loop_state 70 = Some 1" "node_to_packnode loop_state 71 = Some 1"
    "IsSame (pack_at loop_state 1) [70, 71]"
    by (simp_all add: loop_state_def IsSame_def empty_tree_def)
  have b: "AllOnStack loop_state [70, 71]" "\<not> StackTopIsPhi example_graph loop_state"
    by (simp_all add: loop_state_def OnStack_def StackTopIsPhi_def empty_tree_def ex_simps)
  from BuildTreeRec_cycle [OF b]
  have c: "BuildTreeRec example_graph 8 [70, 71] 3 loop_state = Some (None, loop_state)" .
  have e: "BuildTree example_graph 8 [27, 28] empty_tree =
      Some (None, (PopStack (PopStack (PopStack loop_state)))\<lparr>root := None\<rparr>)"
    by (simp add: builder_simps loop_state_def) (simp add: numeral_2_eq_2)
  from a c e show ?thesis by simp
qed

text \<open>
  C9. For a group of two plain \<open>Load\<close> nodes \<open>BuildTree\<close> returns no pack, and so does
  \<open>BuildTreeRec\<close> in every state in which no \<open>Load\<close> node is registered to a pack;
  \<open>BuildTreeRec\<close> keeps that property of the state, and \<open>BuildTree\<close> starts from an
  empty registry. \<open>CanBePacked\<close> does accept two \<open>Load\<close>s of one block with one
  operator: the group fails in the dispatch.
\<close>

theorem plain_Load_group_no_pack:
  assumes "opcode G n0 = kLoad" and "opcode G n1 = kLoad"
  shows "(\<exists>s'. BuildTree G maxd [n0, n1] s0 = Some (None, s')) \<and>
         (no_load_registered G s \<longrightarrow>
            (\<exists>s'. BuildTreeRec G maxd [n0, n1] d s = Some (None, s') \<and> no_load_registered G s')) \<and>
         (no_load_registered G s \<and> BuildTreeRec G maxd g d s = Some (r, s')
            \<longrightarrow> no_load_registered G s') \<and>
         (SameBasicBlock G n0 n1 \<and> node_op G n1 = node_op G n0 \<and>
          \<not> (IsConstant G n0 \<and> IsConstant G n1) \<longrightarrow> CanBePacked G [n0, n1])"
proof (intro conjI impI)
  have rec: "\<exists>s'. BuildTreeRec G maxd [n0, n1] d' t = Some (None, s') \<and> no_load_registered G s'"
    if nl: "no_load_registered G t" for t d'
  proof -
    from nl assms have "node_to_packnode t n0 = None" "node_to_packnode t n1 = None"
      by (simp_all add: no_load_registered_def)
    from Load_group [OF assms(1) this, of maxd d']
    obtain s' where r: "BuildTreeRec G maxd [n0, n1] d' t = Some (None, s')" by blast
    from no_load_registered_preserved [OF nl r] r show ?thesis by blast
  qed
  from rec [OF no_load_registered_DeleteTree, of 0 s0]
  show "\<exists>s'. BuildTree G maxd [n0, n1] s0 = Some (None, s')"
    by (auto simp: BuildTree_def)
  show "\<exists>s'. BuildTreeRec G maxd [n0, n1] d s = Some (None, s') \<and> no_load_registered G s'"
    if "no_load_registered G s" using rec [OF that] .
  show "no_load_registered G s'"
    if "no_load_registered G s \<and> BuildTreeRec G maxd g d s = Some (r, s')"
    using that no_load_registered_preserved [of G s maxd g d r s'] by blast
  show "CanBePacked G [n0, n1]"
    if "SameBasicBlock G n0 n1 \<and> node_op G n1 = node_op G n0 \<and>
        \<not> (IsConstant G n0 \<and> IsConstant G n1)"
    using that assms(1) by (auto simp: CanBePacked_def AllSameOperator_def AllConstant_def)
qed

theorem plain_Load_group_no_pack_witness:
  "opcode example_graph 30 = kLoad \<and> opcode example_graph 31 = kLoad \<and>
   CanBePacked example_graph [30, 31] \<and>
   (\<exists>s'. BuildTree example_graph 8 [30, 31] empty_tree = Some (None, s'))"
proof -
  have a: "opcode example_graph 30 = kLoad" "opcode example_graph 31 = kLoad"
    by (simp_all add: ex_simps)
  have b: "SameBasicBlock example_graph 30 31 \<and> node_op example_graph 31 = node_op example_graph 30 \<and>
        \<not> (IsConstant example_graph 30 \<and> IsConstant example_graph 31)"
    by (simp add: ex_simps)
  from plain_Load_group_no_pack [OF a, of 8 empty_tree] a b show ?thesis by blast
qed


end
